theory Spec2Isabelle
  imports Main "HOL-Library.Word" "HOL-Library.Char_ord" "HOL-Library.List_Lexorder"
    "HOL-Library.Multiset"
begin

unbundle bit_operations_syntax

section \<open>Shared enumerations\<close>

text \<open>
  The error kinds of \<^verbatim>\<open>EError\<close>, the container states of \<^verbatim>\<open>EContainerState\<close>
  and the virtualization modes, by the names the code uses for them (the enumerations
  are declared in headers that are not among the sources at hand; only the identity of
  the values matters below). \<^verbatim>\<open>TError::Success()\<close> is the value \<open>Success\<close>.
\<close>

datatype EError =
    Success | Unknown | InvalidValue | InvalidState | InvalidProperty
  | ContainerAlreadyExists | ContainerDoesNotExist | Permission | NotSupported
  | ResourceNotAvailable | NoSpace | Busy | Queued

datatype EContainerState = Stopped | Dead | Running | Paused | Meta | Destroyed

datatype EVirtMode = VIRT_MODE_APP | VIRT_MODE_OS

section \<open>Container names: \<^verbatim>\<open>TContainer::ValidName\<close>\<close>

text \<open>
  \<^verbatim>\<open>ROOT_CONTAINER\<close>, \<^verbatim>\<open>SELF_CONTAINER\<close> and \<^verbatim>\<open>DOT_CONTAINER\<close> are the names
  \<open>/\<close>, \<open>self\<close> and \<open>.\<close>. The limits \<^verbatim>\<open>CONTAINER_PATH_MAX\<close> and
  \<^verbatim>\<open>CONTAINER_NAME_MAX\<close> are declared outside the sources at hand and are parameters.
\<close>

definition ROOT_CONTAINER :: string where "ROOT_CONTAINER = ''/''"
definition SELF_CONTAINER :: string where "SELF_CONTAINER = ''self''"
definition DOT_CONTAINER :: string where "DOT_CONTAINER = ''.''"

text \<open>
  \<^verbatim>\<open>name[i]\<close> of a \<^verbatim>\<open>std::string\<close>: the byte at \<open>i\<close>, and the terminating NUL at
  \<open>i = name.length()\<close>.
\<close>

definition char_at :: "string \<Rightarrow> nat \<Rightarrow> char" where
  "char_at name i = (if i < length name then name ! i else CHR 0x00)"

text \<open>\<^verbatim>\<open>name.substr(pos, n)\<close> for \<open>pos \<le> name.length()\<close>.\<close>

definition substr :: "string \<Rightarrow> nat \<Rightarrow> nat \<Rightarrow> string" where
  "substr name pos n = take n (drop pos name)"

text \<open>
  The \<^verbatim>\<open>case\<close> labels that only \<^verbatim>\<open>break\<close>:
  \<^verbatim>\<open>'a'...'z'\<close>, \<^verbatim>\<open>'A'...'Z'\<close>, \<^verbatim>\<open>'0'...'9'\<close>, \<^verbatim>\<open>'_'\<close>, \<^verbatim>\<open>'-'\<close>, \<^verbatim>\<open>'@'\<close>,
  \<^verbatim>\<open>':'\<close>, \<^verbatim>\<open>'.'\<close>.
\<close>

definition name_char :: "char \<Rightarrow> bool" where
  "name_char c =
     ((of_char (CHR ''a'') \<le> (of_char c :: nat) \<and> (of_char c :: nat) \<le> of_char (CHR ''z'')) \<or>
      (of_char (CHR ''A'') \<le> (of_char c :: nat) \<and> (of_char c :: nat) \<le> of_char (CHR ''Z'')) \<or>
      (of_char (CHR ''0'') \<le> (of_char c :: nat) \<and> (of_char c :: nat) \<le> of_char (CHR ''9'')) \<or>
      c = CHR ''_'' \<or> c = CHR ''-'' \<or> c = CHR ''@'' \<or> c = CHR '':'' \<or> c = CHR ''.'')"

text \<open>
  The \<^verbatim>\<open>for\<close> loop of \<^verbatim>\<open>ValidName\<close>, from the state \<open>(first, i)\<close>. The first
  \<^verbatim>\<open>case\<close> group (\<^verbatim>\<open>'/'\<close> and \<^verbatim>\<open>'\0'\<close>) checks the component
  \<open>[first, i)\<close>, sets \<open>first = i + 1\<close> and falls through to the \<^verbatim>\<open>break\<close>. In the loop
  \<open>first \<le> i\<close> always holds, so \<open>i - first\<close> never wraps.
\<close>

function ValidName_loop :: "nat \<Rightarrow> string \<Rightarrow> nat \<Rightarrow> nat \<Rightarrow> EError" where
  "ValidName_loop name_max name first i =
     (if i \<le> length name then
        (if char_at name i = CHR ''/'' \<or> char_at name i = CHR 0x00 then
           (if i = first then InvalidValue
            else if i - first > name_max then InvalidValue
            else if substr name first (i - first) = SELF_CONTAINER then InvalidValue
            else if substr name first (i - first) = DOT_CONTAINER then InvalidValue
            else ValidName_loop name_max name (i + 1) (i + 1))
         else if name_char (char_at name i) then ValidName_loop name_max name first (i + 1)
         else InvalidValue)
      else Success)"
  by pat_completeness auto
termination
  by (relation "measure (\<lambda>(name_max, name, first, i). Suc (length name) - i)") auto

declare ValidName_loop.simps [simp del]

definition ValidName :: "nat \<Rightarrow> nat \<Rightarrow> string \<Rightarrow> EError" where
  "ValidName path_max name_max name =
     (if length name = 0 then InvalidValue
      else if length name > path_max then InvalidValue
      else if char_at name 0 = CHR ''/'' then
        (if name = ROOT_CONTAINER then Success else InvalidValue)
      else ValidName_loop name_max name 0 0)"

text \<open>
  The components of a name: the pieces between the \<open>/\<close> characters (a leading, a
  trailing or a doubled \<open>/\<close> gives an empty piece).
\<close>

fun split_slash :: "string \<Rightarrow> string list" where
  "split_slash [] = [[]]"
| "split_slash (c # cs) =
     (if c = CHR ''/'' then [] # split_slash cs
      else (c # hd (split_slash cs)) # tl (split_slash cs))"

text \<open>
  The name validity of the claim C5, in its words: the root name, or a non-empty name of
  at most \<open>path_max\<close> bytes that neither begins nor ends with \<open>/\<close> and whose
  components are non-empty, at most \<open>name_max\<close> long, made of the characters
  \<open>[A-Za-z0-9_@:.-]\<close> and different from \<open>self\<close> and \<open>.\<close>.
\<close>

definition component_ok :: "nat \<Rightarrow> string \<Rightarrow> bool" where
  "component_ok name_max part =
     (part \<noteq> [] \<and> length part \<le> name_max \<and> list_all name_char part \<and>
      part \<noteq> SELF_CONTAINER \<and> part \<noteq> DOT_CONTAINER)"

definition valid_name_spec :: "nat \<Rightarrow> nat \<Rightarrow> string \<Rightarrow> bool" where
  "valid_name_spec path_max name_max name =
     (name = ROOT_CONTAINER \<or>
      (name \<noteq> [] \<and> length name \<le> path_max \<and> hd name \<noteq> CHR ''/'' \<and> last name \<noteq> CHR ''/'' \<and>
       list_all (component_ok name_max) (split_slash name)))"

text \<open>
  C5 (the code departs from the claim). The second \<^verbatim>\<open>case\<close> label of the component
  group is \<^verbatim>\<open>'\0'\<close>, meant for the terminator at \<open>i = name.length()\<close>; but a
  \<^verbatim>\<open>std::string\<close> may hold NUL bytes, and an embedded NUL is then taken as a component
  separator and the name is accepted, although NUL is not one of the characters
  \<open>[A-Za-z0-9_@:.-]\<close> and not \<open>/\<close>.
\<close>

theorem ValidName_accepts_embedded_NUL:
  "ValidName 200 128 [CHR ''a'', CHR 0x00, CHR ''b''] = Success \<and>
   \<not> valid_name_spec 200 128 [CHR ''a'', CHR 0x00, CHR ''b''] \<and>
   \<not> name_char (CHR 0x00) \<and> CHR 0x00 \<noteq> CHR ''/''"
  by (simp add: ValidName_def ValidName_loop.simps char_at_def name_char_def substr_def
      SELF_CONTAINER_def DOT_CONTAINER_def ROOT_CONTAINER_def valid_name_spec_def
      component_ok_def)

subsection \<open>Names without NUL bytes\<close>

lemma split_slash_nonempty [simp]: "split_slash s \<noteq> []"
  by (induction s) auto

lemma split_slash_no_slash: "CHR ''/'' \<notin> set cur \<Longrightarrow> split_slash cur = [cur]"
  by (induction cur) auto

lemma split_slash_append:
  "CHR ''/'' \<notin> set cur \<Longrightarrow> split_slash (cur @ CHR ''/'' # rest) = cur # split_slash rest"
  by (induction cur) auto

lemma split_slash_chars:
  "c \<in> set s \<Longrightarrow> c \<noteq> CHR ''/'' \<Longrightarrow> \<exists>part \<in> set (split_slash s). c \<in> set part"
proof (induction s)
  case Nil
  then show ?case by simp
next
  case (Cons d s)
  show ?case
  proof (cases "c = d")
    case True
    then show ?thesis using Cons.prems by simp
  next
    case False
    then have "c \<in> set s" using Cons.prems by simp
    then obtain part where part: "part \<in> set (split_slash s)" "c \<in> set part"
      using Cons.IH Cons.prems by blast
    show ?thesis
    proof (cases "d = CHR ''/''")
      case True
      then show ?thesis using part by auto
    next
      case nd: False
      have "split_slash s = hd (split_slash s) # tl (split_slash s)" by simp
      then have "part = hd (split_slash s) \<or> part \<in> set (tl (split_slash s))"
        using part(1) by (metis set_ConsD)
      then show ?thesis using part(2) nd by auto
    qed
  qed
qed

lemma split_slash_trailing_last:
  "last (split_slash (s @ [CHR ''/''])) = [] \<and> tl (split_slash (s @ [CHR ''/''])) \<noteq> []"
proof (induction s)
  case Nil
  then show ?case by simp
next
  case (Cons d s)
  let ?X = "split_slash (s @ [CHR ''/''])"
  have X: "?X \<noteq> []" "last ?X = []" "tl ?X \<noteq> []" using Cons.IH by simp_all
  then have "last (tl ?X) = []" by (metis last_tl)
  then show ?case using X by (auto simp: last_tl)
qed

lemma split_slash_trailing: "[] \<in> set (split_slash (s @ [CHR ''/'']))"
  using split_slash_trailing_last[of s] last_in_set[of "split_slash (s @ [CHR ''/''])"] by simp

lemma name_char_not_sep: "name_char c \<Longrightarrow> c \<noteq> CHR ''/'' \<and> c \<noteq> CHR 0x00"
  by (auto simp: name_char_def)

lemma substr_middle: "substr (pre @ cur @ rest) (length pre) (length cur) = cur"
  by (simp add: substr_def)

lemma char_at_middle: "char_at (pre @ cur @ c # rest) (length pre + length cur) = c"
  by (simp add: char_at_def nth_append)

lemma char_at_end: "char_at (pre @ cur) (length pre + length cur) = CHR 0x00"
  by (simp add: char_at_def)

lemma ValidName_loop_spec:
  assumes "\<forall>c \<in> set cur. name_char c" "CHR 0x00 \<notin> set rest"
  shows "ValidName_loop name_max (pre @ cur @ rest) (length pre) (length pre + length cur) = Success
         \<longleftrightarrow> (\<forall>part \<in> set (split_slash (cur @ rest)). component_ok name_max part)"
  using assms
proof (induction rest arbitrary: pre cur)
  case Nil
  have ns: "CHR ''/'' \<notin> set cur" using Nil.prems name_char_not_sep by blast
  have "ValidName_loop name_max (pre @ cur) (Suc (length pre + length cur)) (Suc (length pre + length cur)) = Success"
    by (subst ValidName_loop.simps) simp
  then show ?case
    using Nil.prems substr_middle[of pre cur "[]"] char_at_end[of pre cur]
    by (subst ValidName_loop.simps)
       (auto simp: split_slash_no_slash[OF ns] component_ok_def list_all_iff)
next
  case (Cons c rest)
  have ns: "CHR ''/'' \<notin> set cur" using Cons.prems name_char_not_sep by blast
  have nz: "c \<noteq> CHR 0x00" "CHR 0x00 \<notin> set rest" using Cons.prems by auto
  have at: "char_at (pre @ cur @ c # rest) (length pre + length cur) = c" by (rule char_at_middle)
  have len: "length pre + length cur \<le> length (pre @ cur @ c # rest)" by simp
  show ?case
  proof (cases "c = CHR ''/''")
    case True
    have IH: "ValidName_loop name_max ((pre @ cur @ [c]) @ [] @ rest) (length (pre @ cur @ [c]))
                (length (pre @ cur @ [c]) + length ([]::string)) = Success
              \<longleftrightarrow> (\<forall>part \<in> set (split_slash ([] @ rest)). component_ok name_max part)"
      by (rule Cons.IH) (use nz in auto)
    then have IH': "ValidName_loop name_max (pre @ cur @ c # rest) (length pre + length cur + 1)
                (length pre + length cur + 1) = Success
              \<longleftrightarrow> (\<forall>part \<in> set (split_slash rest). component_ok name_max part)"
      by simp
    have cur_ok: "component_ok name_max cur \<longleftrightarrow>
        cur \<noteq> [] \<and> length cur \<le> name_max \<and> cur \<noteq> SELF_CONTAINER \<and> cur \<noteq> DOT_CONTAINER"
      using Cons.prems(1) by (auto simp: component_ok_def list_all_iff)
    show ?thesis
      using True at IH' substr_middle[of pre cur "c # rest"] cur_ok
      by (subst ValidName_loop.simps)
         (auto simp: split_slash_append[OF ns] simp del: ValidName_loop.simps)
  next
    case False
    show ?thesis
    proof (cases "name_char c")
      case nc: True
      have IH: "ValidName_loop name_max (pre @ (cur @ [c]) @ rest) (length pre)
                  (length pre + length (cur @ [c])) = Success
                \<longleftrightarrow> (\<forall>part \<in> set (split_slash ((cur @ [c]) @ rest)). component_ok name_max part)"
        by (rule Cons.IH) (use nz nc Cons.prems in auto)
      then have IH': "ValidName_loop name_max (pre @ cur @ c # rest) (length pre)
                  (length pre + length cur + 1) = Success
                \<longleftrightarrow> (\<forall>part \<in> set (split_slash (cur @ c # rest)). component_ok name_max part)"
        by simp
      show ?thesis
        using False nz nc at IH'
        by (subst ValidName_loop.simps) (simp del: ValidName_loop.simps)
    next
      case bad: False
      obtain part where "part \<in> set (split_slash (cur @ c # rest))" "c \<in> set part"
        using split_slash_chars[of c "cur @ c # rest"] False by auto
      then have "\<not> (\<forall>part \<in> set (split_slash (cur @ c # rest)). component_ok name_max part)"
        using bad by (auto simp: component_ok_def list_all_iff)
      then show ?thesis
        using False nz bad at
        by (subst ValidName_loop.simps) (simp del: ValidName_loop.simps)
    qed
  qed
qed

text \<open>
  Apart from NUL bytes the code accepts exactly the names the claim C5 describes.
\<close>

lemma ValidName_meets_spec_without_NUL:
  assumes "1 \<le> path_max" "CHR 0x00 \<notin> set name"
  shows "ValidName path_max name_max name = Success \<longleftrightarrow> valid_name_spec path_max name_max name"
proof (cases "name = [] \<or> length name > path_max")
  case True
  then show ?thesis
    using assms(1) by (auto simp: ValidName_def valid_name_spec_def ROOT_CONTAINER_def list_all_iff)
next
  case False
  then obtain c cs where name: "name = c # cs" by (cases name) auto
  show ?thesis
  proof (cases "c = CHR ''/''")
    case True
    then show ?thesis
      using False name by (auto simp: ValidName_def valid_name_spec_def char_at_def list_all_iff)
  next
    case nslash: False
    have loop: "ValidName_loop name_max name 0 0 = Success
                \<longleftrightarrow> (\<forall>part \<in> set (split_slash name). component_ok name_max part)"
      using ValidName_loop_spec[of "[]" name name_max "[]"] assms(2) by simp
    have "last name \<noteq> CHR ''/''" if "\<forall>part \<in> set (split_slash name). component_ok name_max part"
    proof
      assume "last name = CHR ''/''"
      then have "name = butlast name @ [CHR ''/'']" using name by (metis append_butlast_last_id list.discI)
      then have "[] \<in> set (split_slash name)" using split_slash_trailing[of "butlast name"] by simp
      then show False using that by (auto simp: component_ok_def list_all_iff)
    qed
    then show ?thesis
      using False name nslash loop
      by (auto simp: ValidName_def valid_name_spec_def char_at_def ROOT_CONTAINER_def list_all_iff)
  qed
qed

section \<open>Exit status recorded by \<^verbatim>\<open>TContainer::Exit\<close>\<close>












section \<open>Container records and the object graph\<close>

text \<open>
  Modelled from the spec: \<^verbatim>\<open>EAccessLevel\<close> is declared in a header that is not among
  the sources at hand; the spec lists its values as None, ReadOnly, ChildOnly, Normal,
  SuperUser, Internal, and the comparisons of the code (\<^verbatim>\<open>AccessLevel < ChildOnly\<close>,
  \<^verbatim>\<open>AccessLevel >= SuperUser\<close>, \<^verbatim>\<open>std::min\<close>) are those of the underlying integers
  in that order.
\<close>

datatype EAccessLevel = AL_None | ReadOnly | ChildOnly | Normal | SuperUser | Internal

fun level_rank :: "EAccessLevel \<Rightarrow> nat" where
  "level_rank AL_None = 0"
| "level_rank ReadOnly = 1"
| "level_rank ChildOnly = 2"
| "level_rank Normal = 3"
| "level_rank SuperUser = 4"
| "level_rank Internal = 5"

text \<open>\<^verbatim>\<open>std::min(a, b)\<close>: \<open>b\<close> when \<open>b < a\<close>, else \<open>a\<close>.\<close>

definition level_min :: "EAccessLevel \<Rightarrow> EAccessLevel \<Rightarrow> EAccessLevel" where
  "level_min a b = (if level_rank b < level_rank a then b else a)"

datatype EController = CGROUP_FREEZER | CGROUP_MEMORY | CGROUP_CPU | CGROUP_CPUACCT
  | CGROUP_NETCLS | CGROUP_BLKIO | CGROUP_DEVICES | CGROUP_LEGACY

text \<open>
  A \<^verbatim>\<open>TContainer\<close> object, with the fields the operations below read or write.
  Objects live in a heap (a list, an object's address is its index); \<^verbatim>\<open>Parent\<close> and
  \<^verbatim>\<open>Children\<close> hold addresses, as the shared pointers of the code do.
  \<^verbatim>\<open>RunningChildren\<close> is a \<^verbatim>\<open>size_t\<close>, \<^verbatim>\<open>Locked\<close> an \<^verbatim>\<open>int\<close>
  (\<open>+N\<close> readers, \<open>-1\<close> writer), the \<^verbatim>\<open>Controllers\<close> bit mask is the set of its bits.
\<close>

type_synonym cid = nat

text \<open>\<^verbatim>\<open>TCred\<close>: user id, group id and supplementary groups.\<close>

record TCred =
  Uid :: nat
  Gid :: nat
  Groups :: "nat list"

record TContainer =
  Id :: nat
  Name :: string
  Parent :: "cid option"
  Children :: "cid list"
  Level :: nat
  State :: EContainerState
  RunningChildren :: "64 word"
  Locked :: int
  AccessLevel :: EAccessLevel
  Isolate :: bool
  VirtMode :: EVirtMode
  Controllers :: "EController set"
  TaskPid :: int
  TaskVPid :: int
  WaitTaskPid :: int
  DeathTime :: nat
  ExitStatus :: int
  OomKilled :: bool
  AgingTime :: nat
  ToRespawn :: bool
  MaxRespawns :: int
  RespawnCount :: nat
  Command :: string
  OwnerCred :: TCred

type_synonym heap = "TContainer list"

text \<open>
  The constructor sets \<open>Level = parent->Level + 1\<close>, so along every \<^verbatim>\<open>Parent\<close>
  pointer the level strictly decreases and the pointer is a live address. This is the
  shape of the object graph that the constructor and \<^verbatim>\<open>Register\<close> build.
\<close>

definition wf_heap :: "heap \<Rightarrow> bool" where
  "wf_heap h = (\<forall>x < length h. case Parent (h ! x) of None \<Rightarrow> True
                  | Some p \<Rightarrow> p < length h \<and> Level (h ! p) < Level (h ! x))"

text \<open>\<open>ancestor h a x\<close>: \<open>a\<close> is reached from \<open>x\<close> by one or more \<^verbatim>\<open>Parent\<close> steps.\<close>

inductive ancestor :: "heap \<Rightarrow> cid \<Rightarrow> cid \<Rightarrow> bool" for h :: heap where
  parent: "x < length h \<Longrightarrow> Parent (h ! x) = Some p \<Longrightarrow> ancestor h p x"
| step: "x < length h \<Longrightarrow> Parent (h ! x) = Some p \<Longrightarrow> ancestor h a p \<Longrightarrow> ancestor h a x"

code_pred ancestor .

section \<open>Hierarchical locks: \<^verbatim>\<open>TContainer::Lock\<close> and \<^verbatim>\<open>TContainer::Unlock\<close>\<close>

text \<open>
  One pass of the \<^verbatim>\<open>while (1)\<close> loop of \<^verbatim>\<open>Lock\<close> either returns or reaches
  \<^verbatim>\<open>ContainersCV.wait(lock)\<close>, where other threads run before the next pass.
\<close>

datatype lock_step = Return EError | WaitCV

text \<open>
  \<^verbatim>\<open>for (auto ct = Parent.get(); !busy && ct; ct = ct->Parent.get())
      busy = busy || ct->Locked < 0;\<close>
  A pointer out of the heap has no behaviour (\<open>None\<close>), as has a walk that never ends.
\<close>

partial_function (option) Lock_busy :: "heap \<Rightarrow> cid option \<Rightarrow> bool \<Rightarrow> bool option" where
  "Lock_busy h ct busy =
     (if busy then Some busy
      else case ct of None \<Rightarrow> Some busy
        | Some p \<Rightarrow>
            if p < length h then Lock_busy h (Parent (h ! p)) (busy \<or> Locked (h ! p) < 0)
            else None)"

text \<open>\<^verbatim>\<open>for (auto ct = Parent.get(); ct; ct = ct->Parent.get()) ct->Locked++;\<close>\<close>

partial_function (option) Lock_parents :: "cid option \<Rightarrow> heap \<Rightarrow> heap option" where
  "Lock_parents ct h =
     (case ct of None \<Rightarrow> Some h
      | Some p \<Rightarrow>
          if p < length h
          then Lock_parents (Parent (h ! p)) (h[p := (h ! p)\<lparr>Locked := Locked (h ! p) + 1\<rparr>])
          else None)"

definition Lock :: "cid \<Rightarrow> bool \<Rightarrow> bool \<Rightarrow> heap \<Rightarrow> (lock_step \<times> heap) option" where
  "Lock x shared try_lock h =
     (if x < length h then
        (if State (h ! x) = Destroyed then Some (Return ContainerDoesNotExist, h)
         else case Lock_busy h (Parent (h ! x))
                     (Locked (h ! x) \<noteq> 0 \<and> (Locked (h ! x) < 0 \<or> \<not> shared)) of
           None \<Rightarrow> None
         | Some busy \<Rightarrow>
             if busy then (if try_lock then Some (Return Busy, h) else Some (WaitCV, h))
             else map_option (Pair (Return Success))
                    (Lock_parents (Parent (h ! x))
                       (h[x := (h ! x)\<lparr>Locked := Locked (h ! x) + (if shared then 1 else - 1)\<rparr>])))
      else None)"

declare Lock_busy.simps [code]
declare Lock_parents.simps [code]

text \<open>
  \<^verbatim>\<open>
  void TContainer::Unlock(bool locked) {
      ...
      PORTO_ASSERT(Locked);
      Locked += (Locked > 0) ? -1 : 1;
      for (auto ct = Parent.get(); ct; ct = ct->Parent.get()) {
          PORTO_ASSERT(ct->Locked > 0);
          ct->Locked--;
      }
      ...
  }
  \<close>
  A failing \<^verbatim>\<open>PORTO_ASSERT\<close> ends the daemon: no heap is returned.
\<close>

partial_function (option) Unlock_parents :: "cid option \<Rightarrow> heap \<Rightarrow> heap option" where
  "Unlock_parents ct h =
     (case ct of None \<Rightarrow> Some h
      | Some p \<Rightarrow>
          if p < length h \<and> Locked (h ! p) > 0
          then Unlock_parents (Parent (h ! p)) (h[p := (h ! p)\<lparr>Locked := Locked (h ! p) - 1\<rparr>])
          else None)"

declare Unlock_parents.simps [code]

definition Unlock :: "cid \<Rightarrow> heap \<Rightarrow> heap option" where
  "Unlock x h =
     (if x < length h \<and> Locked (h ! x) \<noteq> 0
      then Unlock_parents (Parent (h ! x))
             (h[x := (h ! x)\<lparr>Locked := Locked (h ! x) + (if Locked (h ! x) > 0 then - 1 else 1)\<rparr>])
      else None)"


text \<open>
  The lock counter of a record: negative while a writer holds it, positive while readers
  hold it (or while a descendant is locked, which read-locks every ancestor).
\<close>

definition holds_write :: "heap \<Rightarrow> cid \<Rightarrow> bool" where
  "holds_write h a = (Locked (h ! a) < 0)"

definition holds_read :: "heap \<Rightarrow> cid \<Rightarrow> bool" where
  "holds_read h a = (Locked (h ! a) > 0)"

definition grantable :: "heap \<Rightarrow> cid \<Rightarrow> bool \<Rightarrow> bool" where
  "grantable h x shared =
     (\<not> holds_write h x \<and> (shared \<or> \<not> holds_read h x) \<and> (\<forall>a. ancestor h a x \<longrightarrow> \<not> holds_write h a))"

text \<open>
  The addresses visited by \<^verbatim>\<open>for (ct = p; ct; ct = ct->Parent.get())\<close>: \<open>p\<close> and
  its ancestors.
\<close>

definition reach :: "heap \<Rightarrow> cid option \<Rightarrow> cid set" where
  "reach h ct = (case ct of None \<Rightarrow> {} | Some p \<Rightarrow> insert p {a. ancestor h a p})"

text \<open>
  Records used as concrete inputs: the root container, a Stopped child \<open>a\<close> of it and a
  Running child \<open>r\<close> of it.
\<close>

definition ct_root :: TContainer where
  "ct_root = \<lparr>Id = 1, Name = ''/'', Parent = None, Children = [1], Level = 0, State = Meta,
     RunningChildren = 0, Locked = 0, AccessLevel = Normal, Isolate = True,
     VirtMode = VIRT_MODE_APP, Controllers = {CGROUP_FREEZER},
     TaskPid = 0, TaskVPid = 0, WaitTaskPid = 0, DeathTime = 0, ExitStatus = 0,
     OomKilled = False, AgingTime = 0, ToRespawn = False,
     MaxRespawns = - 1, RespawnCount = 0, Command = [],
     OwnerCred = \<lparr>Uid = 0, Gid = 0, Groups = []\<rparr>\<rparr>"

definition ct_a :: TContainer where
  "ct_a = ct_root\<lparr>Id := 2, Name := ''a'', Parent := Some 0, Children := [], Level := 1, State := Stopped\<rparr>"

definition ct_r :: TContainer where
  "ct_r = ct_a\<lparr>Id := 3, Name := ''r'', State := Running, RunningChildren := 1,
               Command := ''sleep 60'', TaskPid := 4242, WaitTaskPid := 4242\<rparr>"

subsection \<open>The walks along \<^verbatim>\<open>Parent\<close> end on a well-formed heap\<close>

lemma wf_heap_example: "wf_heap [ct_root, ct_a]"
  by (simp add: wf_heap_def ct_root_def ct_a_def less_Suc_eq)


lemma ancestor_wf:
  "ancestor h a x \<Longrightarrow> wf_heap h \<Longrightarrow> a < length h \<and> Level (h ! a) < Level (h ! x)"
proof (induction rule: ancestor.induct)
  case (parent x p)
  then show ?case by (auto simp: wf_heap_def split: option.splits)
next
  case (step x p a)
  then have "Level (h ! p) < Level (h ! x)" by (auto simp: wf_heap_def split: option.splits)
  with step show ?case by auto
qed

lemma ancestor_iff:
  "ancestor h a x \<longleftrightarrow> x < length h \<and> a \<in> reach h (Parent (h ! x))"
  unfolding reach_def
  by (auto intro: ancestor.intros elim: ancestor.cases split: option.splits)

lemma reach_Some: "reach h (Some p) = insert p {a. p < length h \<and> a \<in> reach h (Parent (h ! p))}"
  using ancestor_iff[of h _ p] by (auto simp: reach_def)

lemma ancestor_cong:
  assumes "length h' = length h" "\<forall>i < length h. Parent (h' ! i) = Parent (h ! i)"
  shows "ancestor h' a x = ancestor h a x"
proof
  assume "ancestor h' a x" then show "ancestor h a x"
    by (induction rule: ancestor.induct) (use assms in \<open>auto intro: ancestor.intros\<close>)
next
  assume "ancestor h a x" then show "ancestor h' a x"
    by (induction rule: ancestor.induct) (use assms in \<open>auto intro: ancestor.intros\<close>)
qed

lemma reach_cong:
  assumes "length h' = length h" "\<forall>i < length h. Parent (h' ! i) = Parent (h ! i)"
  shows "reach h' ct = reach h ct"
  by (simp add: reach_def ancestor_cong[OF assms] split: option.splits)

lemma wf_heap_parent:
  "wf_heap h \<Longrightarrow> c < length h \<Longrightarrow> Parent (h ! c) = Some p \<Longrightarrow>
     p < length h \<and> Level (h ! p) < Level (h ! c)"
  unfolding wf_heap_def by (drule spec[of _ c]) simp

lemma Lock_busy_wf:
  assumes "wf_heap h"
  shows "(\<forall>p. ct = Some p \<longrightarrow> p < length h) \<Longrightarrow>
         Lock_busy h ct b = Some (b \<or> (\<exists>a \<in> reach h ct. Locked (h ! a) < 0))"
proof (induction "case ct of None \<Rightarrow> 0 | Some p \<Rightarrow> Suc (Level (h ! p))" arbitrary: ct b rule: less_induct)
  case less
  show ?case
  proof (cases ct)
    case None
    then show ?thesis by (subst Lock_busy.simps) (simp add: reach_def)
  next
    case (Some p)
    with less.prems have p: "p < length h" by simp
    show ?thesis
    proof (cases b)
      case True
      then show ?thesis by (subst Lock_busy.simps) simp
    next
      case False
      have nxt: "\<forall>q. Parent (h ! p) = Some q \<longrightarrow> q < length h \<and> Level (h ! q) < Level (h ! p)"
        using assms p by (auto simp: wf_heap_def split: option.splits)
      have "Lock_busy h (Parent (h ! p)) (Locked (h ! p) < 0) =
            Some (Locked (h ! p) < 0 \<or> (\<exists>a \<in> reach h (Parent (h ! p)). Locked (h ! a) < 0))"
        by (rule less.hyps) (use nxt Some in \<open>auto split: option.splits\<close>)
      then show ?thesis
        using False Some p
        by (subst Lock_busy.simps) (auto simp: reach_Some[of h p])
    qed
  qed
qed

lemma Lock_parents_wf:
  "wf_heap h \<Longrightarrow> (\<forall>p. ct = Some p \<longrightarrow> p < length h) \<Longrightarrow>
     \<exists>h'. Lock_parents ct h = Some h' \<and> length h' = length h \<and>
       (\<forall>i < length h. h' ! i = (if i \<in> reach h ct then (h ! i)\<lparr>Locked := Locked (h ! i) + 1\<rparr> else h ! i))"
proof (induction "case ct of None \<Rightarrow> 0 | Some p \<Rightarrow> Suc (Level (h ! p))" arbitrary: ct h rule: less_induct)
  case less
  show ?case
  proof (cases ct)
    case None
    then show ?thesis by (subst Lock_parents.simps) (simp add: reach_def)
  next
    case (Some p)
    with less.prems have p: "p < length h" by simp
    define h1 where "h1 = h[p := (h ! p)\<lparr>Locked := Locked (h ! p) + 1\<rparr>]"
    have len: "length h1 = length h" by (simp add: h1_def)
    have par: "\<forall>i < length h. Parent (h1 ! i) = Parent (h ! i)"
      using p by (auto simp add: h1_def nth_list_update)
    have lev: "\<forall>i < length h. Level (h1 ! i) = Level (h ! i)"
      using p by (auto simp add: h1_def nth_list_update)
    have wf1: "wf_heap h1"
      using less.prems(1) len par lev unfolding wf_heap_def by (auto split: option.splits)
    have nxt: "\<forall>q. Parent (h ! p) = Some q \<longrightarrow> q < length h \<and> Level (h ! q) < Level (h ! p)"
      using less.prems(1) p by (auto simp: wf_heap_def split: option.splits)
    have "\<exists>h'. Lock_parents (Parent (h ! p)) h1 = Some h' \<and> length h' = length h1 \<and>
       (\<forall>i < length h1. h' ! i = (if i \<in> reach h1 (Parent (h ! p)) then (h1 ! i)\<lparr>Locked := Locked (h1 ! i) + 1\<rparr> else h1 ! i))"
      by (rule less.hyps) (use nxt Some wf1 len lev p in \<open>auto split: option.splits\<close>)
    then obtain h' where h': "Lock_parents (Parent (h ! p)) h1 = Some h'" "length h' = length h"
      "\<forall>i < length h. h' ! i = (if i \<in> reach h (Parent (h ! p)) then (h1 ! i)\<lparr>Locked := Locked (h1 ! i) + 1\<rparr> else h1 ! i)"
      using len reach_cong[OF len par] by auto
    have notin: "p \<notin> reach h (Parent (h ! p))"
      using ancestor_wf[of h p p] less.prems(1) ancestor_iff[of h p p] p by auto
    have "Lock_parents ct h = Some h'"
      using Some p h'(1) by (subst Lock_parents.simps) (simp add: h1_def)
    moreover have "\<forall>i < length h. h' ! i = (if i \<in> reach h ct then (h ! i)\<lparr>Locked := Locked (h ! i) + 1\<rparr> else h ! i)"
      using h'(3) notin p Some by (auto simp: reach_Some[of h p] h1_def nth_list_update)
    ultimately show ?thesis using h'(2) by blast
  qed
qed

lemma wf_heap_cong:
  assumes "length h' = length h" "\<forall>i < length h. Parent (h' ! i) = Parent (h ! i)"
    "\<forall>i < length h. Level (h' ! i) = Level (h ! i)" "wf_heap h"
  shows "wf_heap h'"
  using assms unfolding wf_heap_def by (auto split: option.splits)

lemma Lock_effect:
  assumes wf: "wf_heap h" and x: "x < length h" and live: "State (h ! x) \<noteq> Destroyed"
  shows "\<exists>r h'. Lock x shared try_lock h = Some (r, h') \<and>
     (r = Return Success \<longleftrightarrow> grantable h x shared) \<and>
     (r \<noteq> Return Success \<longrightarrow> h' = h \<and> r = (if try_lock then Return Busy else WaitCV)) \<and>
     (r = Return Success \<longrightarrow> length h' = length h \<and>
        (\<forall>i < length h. h' ! i = (h ! i)\<lparr>Locked := Locked (h ! i) +
           (if i = x then (if shared then 1 else - 1) else if ancestor h i x then 1 else 0)\<rparr>))"
proof -
  let ?b0 = "Locked (h ! x) \<noteq> 0 \<and> (Locked (h ! x) < 0 \<or> \<not> shared)"
  let ?busy = "?b0 \<or> (\<exists>a \<in> reach h (Parent (h ! x)). Locked (h ! a) < 0)"
  have pp: "\<forall>p. Parent (h ! x) = Some p \<longrightarrow> p < length h"
    using wf x by (auto simp: wf_heap_def split: option.splits)
  have busy: "Lock_busy h (Parent (h ! x)) ?b0 = Some ?busy"
    by (rule Lock_busy_wf[OF wf pp])
  have anc: "\<And>a. ancestor h a x \<longleftrightarrow> a \<in> reach h (Parent (h ! x))"
    using ancestor_iff[of h _ x] x by simp
  have g: "grantable h x shared \<longleftrightarrow> \<not> ?busy"
    unfolding grantable_def holds_write_def holds_read_def anc by auto
  show ?thesis
  proof (cases ?busy)
    case True
    then have "Lock x shared try_lock h = Some (if try_lock then Return Busy else WaitCV, h)"
      using x live busy by (simp add: Lock_def)
    then show ?thesis using g True by auto
  next
    case False
    define h1 where "h1 = h[x := (h ! x)\<lparr>Locked := Locked (h ! x) + (if shared then 1 else - 1)\<rparr>]"
    have len: "length h1 = length h" by (simp add: h1_def)
    have par: "\<forall>i < length h. Parent (h1 ! i) = Parent (h ! i)"
      using x by (auto simp add: h1_def nth_list_update)
    have lev: "\<forall>i < length h. Level (h1 ! i) = Level (h ! i)"
      using x by (auto simp add: h1_def nth_list_update)
    have wf1: "wf_heap h1" by (rule wf_heap_cong[OF len par lev wf])
    have pp1: "\<forall>p. Parent (h ! x) = Some p \<longrightarrow> p < length h1" using pp len by simp
    obtain h' where h': "Lock_parents (Parent (h ! x)) h1 = Some h'" "length h' = length h"
      "\<forall>i < length h. h' ! i = (if i \<in> reach h (Parent (h ! x))
          then (h1 ! i)\<lparr>Locked := Locked (h1 ! i) + 1\<rparr> else h1 ! i)"
      using Lock_parents_wf[OF wf1 pp1] len reach_cong[OF len par] by auto
    have notin: "x \<notin> reach h (Parent (h ! x))"
      using ancestor_wf[of h x x] wf anc by auto
    have L: "Lock x shared try_lock h = Some (Return Success, h')"
      using x live busy False h'(1) by (simp add: Lock_def h1_def)
    have eff: "\<forall>i < length h. h' ! i = (h ! i)\<lparr>Locked := Locked (h ! i) +
           (if i = x then (if shared then 1 else - 1) else if ancestor h i x then 1 else 0)\<rparr>"
      using h'(3) notin x unfolding anc by (auto simp: h1_def nth_list_update)
    have gr: "grantable h x shared" using g False by simp
    show ?thesis
      using L gr eff h'(2) by auto
  qed
qed



text \<open>
  C2. On a well-formed heap and a container that is not Destroyed, one pass of
  \<^verbatim>\<open>Lock\<close> always returns or waits. A write lock is granted only when neither \<open>x\<close>
  nor any ancestor of \<open>x\<close> holds a write lock and \<open>x\<close> holds no read lock; a read
  lock is granted only when no ancestor of \<open>x\<close> holds a write lock (and \<open>x\<close> itself
  holds none). The lock is granted exactly when it is \<open>grantable\<close>; a lock that is not
  granted leaves the heap, so every lock counter, unchanged, and with \<^verbatim>\<open>try_lock\<close> it
  returns Busy at once instead of waiting. A granted lock adds \<open>1\<close> (read) or \<open>-1\<close>
  (write) to the counter of \<open>x\<close> and \<open>1\<close> to the counter of every ancestor.
\<close>

theorem Lock_hierarchical:
  assumes wf: "wf_heap h" and x: "x < length h" and live: "State (h ! x) \<noteq> Destroyed"
  shows "\<exists>r h'. Lock x shared try_lock h = Some (r, h') \<and>
     (r = Return Success \<and> \<not> shared \<longrightarrow>
        \<not> holds_write h x \<and> (\<forall>a. ancestor h a x \<longrightarrow> \<not> holds_write h a) \<and> \<not> holds_read h x) \<and>
     (r = Return Success \<and> shared \<longrightarrow> (\<forall>a. ancestor h a x \<longrightarrow> \<not> holds_write h a)) \<and>
     (r = Return Success \<longleftrightarrow> grantable h x shared) \<and>
     (r \<noteq> Return Success \<longrightarrow> h' = h \<and> r = (if try_lock then Return Busy else WaitCV)) \<and>
     (r = Return Success \<longrightarrow> length h' = length h \<and>
        (\<forall>i < length h. h' ! i = (h ! i)\<lparr>Locked := Locked (h ! i) +
           (if i = x then (if shared then 1 else - 1) else if ancestor h i x then 1 else 0)\<rparr>))"
proof -
  obtain r h' where L: "Lock x shared try_lock h = Some (r, h')"
    "r = Return Success \<longleftrightarrow> grantable h x shared"
    "r \<noteq> Return Success \<longrightarrow> h' = h \<and> r = (if try_lock then Return Busy else WaitCV)"
    "r = Return Success \<longrightarrow> length h' = length h \<and>
        (\<forall>i < length h. h' ! i = (h ! i)\<lparr>Locked := Locked (h ! i) +
           (if i = x then (if shared then 1 else - 1) else if ancestor h i x then 1 else 0)\<rparr>)"
    using Lock_effect[OF wf x live, of shared try_lock] by blast
  have "r = Return Success \<and> \<not> shared \<longrightarrow>
        \<not> holds_write h x \<and> (\<forall>a. ancestor h a x \<longrightarrow> \<not> holds_write h a) \<and> \<not> holds_read h x"
    using L(2) by (auto simp: grantable_def)
  moreover have "r = Return Success \<and> shared \<longrightarrow> (\<forall>a. ancestor h a x \<longrightarrow> \<not> holds_write h a)"
    using L(2) by (auto simp: grantable_def)
  ultimately show ?thesis using L by blast
qed

theorem Lock_hierarchical_witness:
  "wf_heap [ct_root, ct_a] \<and> 1 < length [ct_root, ct_a] \<and> State ([ct_root, ct_a] ! 1) \<noteq> Destroyed \<and>
   Lock 1 False True [ct_root, ct_a] =
     Some (Return Success, [ct_root\<lparr>Locked := 1\<rparr>, ct_a\<lparr>Locked := - 1\<rparr>]) \<and>
   grantable [ct_root, ct_a] 1 False \<and>
   wf_heap [ct_root\<lparr>Locked := 1\<rparr>, ct_a\<lparr>Locked := - 1\<rparr>] \<and>
   Lock 0 False True [ct_root\<lparr>Locked := 1\<rparr>, ct_a\<lparr>Locked := - 1\<rparr>] =
     Some (Return Busy, [ct_root\<lparr>Locked := 1\<rparr>, ct_a\<lparr>Locked := - 1\<rparr>]) \<and>
   \<not> grantable [ct_root\<lparr>Locked := 1\<rparr>, ct_a\<lparr>Locked := - 1\<rparr>] 0 False"
proof -
  have w1: "wf_heap [ct_root, ct_a]" by (rule wf_heap_example)
  have w2: "wf_heap [ct_root\<lparr>Locked := 1\<rparr>, ct_a\<lparr>Locked := - 1\<rparr>]"
    by (simp add: wf_heap_def ct_root_def ct_a_def less_Suc_eq)
  have e1: "Lock 1 False True [ct_root, ct_a] =
     Some (Return Success, [ct_root\<lparr>Locked := 1\<rparr>, ct_a\<lparr>Locked := - 1\<rparr>])"
    by (simp add: Lock_def Lock_busy.simps Lock_parents.simps ct_root_def ct_a_def)
  have e2: "Lock 0 False True [ct_root\<lparr>Locked := 1\<rparr>, ct_a\<lparr>Locked := - 1\<rparr>] =
     Some (Return Busy, [ct_root\<lparr>Locked := 1\<rparr>, ct_a\<lparr>Locked := - 1\<rparr>])"
    by (simp add: Lock_def Lock_busy.simps Lock_parents.simps ct_root_def ct_a_def)
  have s1: "State ([ct_root, ct_a] ! 1) \<noteq> Destroyed" by (simp add: ct_a_def ct_root_def)
  have s2: "State ([ct_root\<lparr>Locked := 1\<rparr>, ct_a\<lparr>Locked := - 1\<rparr>] ! 0) \<noteq> Destroyed"
    by (simp add: ct_a_def ct_root_def)
  show ?thesis
    using Lock_hierarchical[OF w1 _ s1, of False True]
          Lock_hierarchical[OF w2 _ s2, of False True] w1 w2 e1 e2 s1
    by auto
qed

subsection \<open>\<^verbatim>\<open>Unlock\<close> gives back what \<^verbatim>\<open>Lock\<close> took\<close>

lemma Unlock_parents_wf:
  "wf_heap h \<Longrightarrow> (\<forall>p. ct = Some p \<longrightarrow> p < length h) \<Longrightarrow>
   \<forall>a \<in> reach h ct. Locked (h ! a) > 0 \<Longrightarrow>
     \<exists>h'. Unlock_parents ct h = Some h' \<and> length h' = length h \<and>
       (\<forall>i < length h. h' ! i = (if i \<in> reach h ct then (h ! i)\<lparr>Locked := Locked (h ! i) - 1\<rparr> else h ! i))"
proof (induction "case ct of None \<Rightarrow> 0 | Some p \<Rightarrow> Suc (Level (h ! p))" arbitrary: ct h rule: less_induct)
  case less
  show ?case
  proof (cases ct)
    case None
    then show ?thesis by (subst Unlock_parents.simps) (simp add: reach_def)
  next
    case (Some p)
    with less.prems have p: "p < length h" by simp
    define h1 where "h1 = h[p := (h ! p)\<lparr>Locked := Locked (h ! p) - 1\<rparr>]"
    have len: "length h1 = length h" by (simp add: h1_def)
    have par: "\<forall>i < length h. Parent (h1 ! i) = Parent (h ! i)"
      using p by (auto simp add: h1_def nth_list_update)
    have lev: "\<forall>i < length h. Level (h1 ! i) = Level (h ! i)"
      using p by (auto simp add: h1_def nth_list_update)
    have wf1: "wf_heap h1" by (rule wf_heap_cong[OF len par lev less.prems(1)])
    have nxt: "\<forall>q. Parent (h ! p) = Some q \<longrightarrow> q < length h \<and> Level (h ! q) < Level (h ! p)"
      using wf_heap_parent[OF less.prems(1) p] by blast
    have r: "reach h ct = insert p (reach h (Parent (h ! p)))"
      using Some p by (simp add: reach_Some[of h p])
    have notin: "p \<notin> reach h (Parent (h ! p))"
      using ancestor_wf[of h p p] less.prems(1) ancestor_iff[of h p p] p by auto
    have pos: "Locked (h ! p) > 0" using less.prems(3) r by simp
    have live: "\<forall>a \<in> reach h (Parent (h ! p)). a < length h"
      using ancestor_wf[of h _ p] less.prems(1) ancestor_iff[of h _ p] p by auto
    have pos1: "\<forall>a \<in> reach h1 (Parent (h ! p)). Locked (h1 ! a) > 0"
    proof
      fix a assume "a \<in> reach h1 (Parent (h ! p))"
      then have a: "a \<in> reach h (Parent (h ! p))" using reach_cong[OF len par] by simp
      then have "a \<noteq> p" "Locked (h ! a) > 0" using notin less.prems(3) r by auto
      then show "Locked (h1 ! a) > 0" by (simp add: h1_def)
    qed
    have "\<exists>h'. Unlock_parents (Parent (h ! p)) h1 = Some h' \<and> length h' = length h1 \<and>
       (\<forall>i < length h1. h' ! i = (if i \<in> reach h1 (Parent (h ! p)) then (h1 ! i)\<lparr>Locked := Locked (h1 ! i) - 1\<rparr> else h1 ! i))"
      by (rule less.hyps) (use nxt Some wf1 len lev p pos1 in \<open>auto split: option.splits\<close>)
    then obtain h' where h': "Unlock_parents (Parent (h ! p)) h1 = Some h'" "length h' = length h"
      "\<forall>i < length h. h' ! i = (if i \<in> reach h (Parent (h ! p))
          then (h1 ! i)\<lparr>Locked := Locked (h1 ! i) - 1\<rparr> else h1 ! i)"
      using len reach_cong[OF len par] by auto
    have "Unlock_parents ct h = Some h'"
      using Some p pos h'(1) by (subst Unlock_parents.simps) (simp add: h1_def)
    moreover have "\<forall>i < length h. h' ! i = (if i \<in> reach h ct then (h ! i)\<lparr>Locked := Locked (h ! i) - 1\<rparr> else h ! i)"
      using h'(3) notin p unfolding r by (auto simp: h1_def nth_list_update)
    ultimately show ?thesis using h'(2) by blast
  qed
qed



lemma Unlock_after_Lock:
  assumes wf: "wf_heap h" and x: "x < length h"
    and granted: "Lock x shared try_lock h = Some (Return Success, h')"
  shows "Unlock x h' = Some h"
proof -
  have live: "State (h ! x) \<noteq> Destroyed" using granted x by (auto simp: Lock_def split: if_splits)
  have g: "grantable h x shared" and len: "length h' = length h"
    and eff: "\<forall>i < length h. h' ! i = (h ! i)\<lparr>Locked := Locked (h ! i) +
           (if i = x then (if shared then 1 else - 1) else if ancestor h i x then 1 else 0)\<rparr>"
    using Lock_effect[OF wf x live, of shared try_lock] granted by auto
  have par: "\<forall>i < length h. Parent (h' ! i) = Parent (h ! i)" using eff by simp
  have lev: "\<forall>i < length h. Level (h' ! i) = Level (h ! i)" using eff by simp
  have wf': "wf_heap h'" by (rule wf_heap_cong[OF len par lev wf])
  have anc: "\<And>a. ancestor h a x \<longleftrightarrow> a \<in> reach h (Parent (h ! x))"
    using ancestor_iff[of h _ x] x by simp
  have notin: "x \<notin> reach h (Parent (h ! x))"
    using ancestor_wf[of h x x] wf anc by auto
  have alive: "\<forall>a \<in> reach h (Parent (h ! x)). a < length h"
    using ancestor_wf[of h _ x] wf anc by auto
  define h1 where "h1 = h'[x := (h' ! x)\<lparr>Locked := Locked (h' ! x) + (if Locked (h' ! x) > 0 then - 1 else 1)\<rparr>]"
  have len1: "length h1 = length h" by (simp add: h1_def len)
  have par1: "\<forall>i < length h. Parent (h1 ! i) = Parent (h ! i)"
    using par x len by (auto simp: h1_def nth_list_update)
  have lev1: "\<forall>i < length h. Level (h1 ! i) = Level (h ! i)"
    using lev x len by (auto simp: h1_def nth_list_update)
  have wf1: "wf_heap h1" by (rule wf_heap_cong[OF len1 par1 lev1 wf])
  have lx: "Locked (h' ! x) = Locked (h ! x) + (if shared then 1 else - 1)" using eff x by simp
  have gx: "\<not> Locked (h ! x) < 0" "shared \<or> \<not> Locked (h ! x) > 0"
    and ga: "\<forall>a. ancestor h a x \<longrightarrow> \<not> Locked (h ! a) < 0"
    using g by (auto simp: grantable_def holds_write_def holds_read_def)
  have nz: "Locked (h' ! x) \<noteq> 0" using lx gx by auto
  have h1x: "h1 ! x = h ! x"
    using lx gx eff x len by (auto simp: h1_def)
  have h1i: "h1 ! i = h' ! i" if "i < length h" "i \<noteq> x" for i
    using that by (simp add: h1_def)
  have pos: "\<forall>a \<in> reach h1 (Parent (h1 ! x)). Locked (h1 ! a) > 0"
  proof
    fix a assume "a \<in> reach h1 (Parent (h1 ! x))"
    then have a: "a \<in> reach h (Parent (h ! x))"
      using reach_cong[OF len1 par1] par1 x by simp
    then have "a < length h" "a \<noteq> x" "ancestor h a x" using alive notin anc by auto
    then show "Locked (h1 ! a) > 0" using h1i eff ga by auto
  qed
  have pp: "\<forall>p. Parent (h1 ! x) = Some p \<longrightarrow> p < length h1"
    using wf_heap_parent[OF wf1, of x] x len1 by auto
  obtain h2 where h2: "Unlock_parents (Parent (h1 ! x)) h1 = Some h2" "length h2 = length h1"
      "\<forall>i < length h1. h2 ! i = (if i \<in> reach h1 (Parent (h1 ! x))
          then (h1 ! i)\<lparr>Locked := Locked (h1 ! i) - 1\<rparr> else h1 ! i)"
    using Unlock_parents_wf[OF wf1 pp pos] by blast
  have px: "Parent (h1 ! x) = Parent (h' ! x)" using par1 par x by simp
  have U: "Unlock x h' = Some h2"
    using h2(1) x len nz px by (simp add: Unlock_def h1_def)
  have "h2 = h"
  proof (rule nth_equalityI)
    show "length h2 = length h" using h2(2) len1 by simp
  next
    fix i assume "i < length h2"
    then have i: "i < length h" using h2(2) len1 by simp
    have r: "reach h1 (Parent (h1 ! x)) = reach h (Parent (h ! x))"
      using reach_cong[OF len1 par1] par1 x by simp
    show "h2 ! i = h ! i"
    proof (cases "i = x")
      case True
      then show ?thesis using h2(3) i len1 r notin h1x by simp
    next
      case False
      then show ?thesis using h2(3) i len1 r h1i[OF i False] eff anc by auto
    qed
  qed
  then show ?thesis using U by simp
qed


section \<open>The running counter: \<^verbatim>\<open>UpdateRunningChildren\<close> and \<^verbatim>\<open>SetState\<close>\<close>

text \<open>
  The state the operations below work on: the heap of container objects, the registry
  \<^verbatim>\<open>Containers\<close> (a \<^verbatim>\<open>std::map\<close> from names to objects, here the list of its
  entries in key order) and the log of the calls of \<^verbatim>\<open>NotifyWaiters\<close> (the waiters
  themselves are not modelled).
\<close>

record world =
  Heap :: heap
  Containers :: "(string \<times> cid) list"
  Notified :: "cid list"

definition NotifyWaiters :: "cid \<Rightarrow> world \<Rightarrow> world" where
  "NotifyWaiters x w = w\<lparr>Notified := Notified w @ [x]\<rparr>"

text \<open>
  \<^verbatim>\<open>
  void TContainer::UpdateRunningChildren(size_t diff) {
      RunningChildren += diff;
      if (!RunningChildren && State == EContainerState::Meta)
          NotifyWaiters();
      if (Parent)
          Parent->UpdateRunningChildren(diff);
  }
  \<close>
  \<^verbatim>\<open>diff\<close> is a \<^verbatim>\<open>size_t\<close>: the call \<^verbatim>\<open>UpdateRunningChildren(-1)\<close> passes
  \<open>2^64 - 1\<close> and the addition wraps.
\<close>

partial_function (option) UpdateRunningChildren :: "cid \<Rightarrow> 64 word \<Rightarrow> world \<Rightarrow> world option" where
  "UpdateRunningChildren x diff w =
     (if x < length (Heap w) then
        (let X = (Heap w ! x)\<lparr>RunningChildren := RunningChildren (Heap w ! x) + diff\<rparr>;
             w1 = w\<lparr>Heap := (Heap w)[x := X]\<rparr>;
             w2 = (if RunningChildren X = 0 \<and> State X = Meta then NotifyWaiters x w1 else w1)
         in case Parent X of None \<Rightarrow> Some w2 | Some p \<Rightarrow> UpdateRunningChildren p diff w2)
      else None)"

declare UpdateRunningChildren.simps [code]

definition SetState :: "cid \<Rightarrow> EContainerState \<Rightarrow> world \<Rightarrow> world option" where
  "SetState x newState w =
     (if x < length (Heap w) then
        (if State (Heap w ! x) = newState then Some w
         else
           case (if newState = Running then UpdateRunningChildren x 1 w
                 else if State (Heap w ! x) = Running then UpdateRunningChildren x (- 1) w
                 else Some w) of
             None \<Rightarrow> None
           | Some w1 \<Rightarrow>
               (let w2 = w1\<lparr>Heap := (Heap w1)[x := (Heap w1 ! x)\<lparr>State := newState\<rparr>]\<rparr>
                in Some (if newState \<noteq> Running \<and> newState \<noteq> Meta then NotifyWaiters x w2 else w2)))
      else None)"


text \<open>
  \<open>in_subtree h c d\<close>: \<open>d\<close> is \<open>c\<close> or a descendant of \<open>c\<close>. The counter that the
  code maintains is the number of Running containers in the subtree.
\<close>

definition in_subtree :: "heap \<Rightarrow> cid \<Rightarrow> cid \<Rightarrow> bool" where
  "in_subtree h c d = (d = c \<or> ancestor h c d)"

definition running_in_subtree :: "heap \<Rightarrow> cid \<Rightarrow> nat" where
  "running_in_subtree h c = card {d. d < length h \<and> State (h ! d) = Running \<and> in_subtree h c d}"

definition rc_inv :: "heap \<Rightarrow> bool" where
  "rc_inv h = (\<forall>c < length h. RunningChildren (h ! c) = of_nat (running_in_subtree h c))"


text \<open>
  The count as the claim C1 states it: the descendants of \<open>c\<close> (\<open>c\<close> excluded) that
  are Running, or Meta with a Running descendant.
\<close>

definition claimed_running_descendants :: "heap \<Rightarrow> cid \<Rightarrow> nat" where
  "claimed_running_descendants h c =
     card {d. d < length h \<and> ancestor h c d \<and>
              (State (h ! d) = Running \<or>
               (State (h ! d) = Meta \<and> (\<exists>e < length h. ancestor h d e \<and> State (h ! e) = Running)))}"

definition world0 :: world where
  "world0 = \<lparr>Heap = [ct_root, ct_a], Containers = [(''/'', 0), (''a'', 1)], Notified = []\<rparr>"

lemma URC_wf:
  "wf_heap (Heap w) \<Longrightarrow> x < length (Heap w) \<Longrightarrow>
     \<exists>w'. UpdateRunningChildren x diff w = Some w' \<and> length (Heap w') = length (Heap w) \<and>
       (\<forall>i < length (Heap w). Heap w' ! i =
          (if i \<in> reach (Heap w) (Some x)
           then (Heap w ! i)\<lparr>RunningChildren := RunningChildren (Heap w ! i) + diff\<rparr> else Heap w ! i))"
proof (induction "Level (Heap w ! x)" arbitrary: x w rule: less_induct)
  case less
  let ?h = "Heap w"
  define X where "X = (?h ! x)\<lparr>RunningChildren := RunningChildren (?h ! x) + diff\<rparr>"
  define w1 where "w1 = w\<lparr>Heap := ?h[x := X]\<rparr>"
  define w2 where "w2 = (if RunningChildren X = 0 \<and> State X = Meta then NotifyWaiters x w1 else w1)"
  have h2: "Heap w2 = ?h[x := X]" by (simp add: w2_def w1_def NotifyWaiters_def)
  have x: "x < length ?h" by fact
  have len: "length (Heap w2) = length ?h" by (simp add: h2)
  have par: "\<forall>i < length ?h. Parent (Heap w2 ! i) = Parent (?h ! i)"
    using x by (auto simp add: h2 X_def nth_list_update)
  have lev: "\<forall>i < length ?h. Level (Heap w2 ! i) = Level (?h ! i)"
    using x by (auto simp add: h2 X_def nth_list_update)
  have wf2: "wf_heap (Heap w2)"
    using less.prems(1) len par lev unfolding wf_heap_def by (auto split: option.splits)
  have unf: "UpdateRunningChildren x diff w =
      (case Parent (?h ! x) of None \<Rightarrow> Some w2 | Some p \<Rightarrow> UpdateRunningChildren p diff w2)"
    unfolding w2_def w1_def X_def using x
    by (subst UpdateRunningChildren.simps) (simp add: Let_def)
  show ?case
  proof (cases "Parent (?h ! x)")
    case None
    have "reach ?h (Some x) = {x}"
      using None x by (subst reach_Some) (simp add: reach_def)
    then show ?thesis
      using unf None x by (auto simp: h2 X_def nth_list_update)
  next
    case (Some p)
    have p: "p < length ?h" "Level (?h ! p) < Level (?h ! x)"
      using less.prems(1) x Some by (auto simp: wf_heap_def split: option.splits)
    have "\<exists>w'. UpdateRunningChildren p diff w2 = Some w' \<and> length (Heap w') = length (Heap w2) \<and>
       (\<forall>i < length (Heap w2). Heap w' ! i =
          (if i \<in> reach (Heap w2) (Some p)
           then (Heap w2 ! i)\<lparr>RunningChildren := RunningChildren (Heap w2 ! i) + diff\<rparr> else Heap w2 ! i))"
      by (rule less.hyps) (use p wf2 len lev in auto)
    then obtain w' where w': "UpdateRunningChildren p diff w2 = Some w'" "length (Heap w') = length ?h"
       "\<forall>i < length ?h. Heap w' ! i =
          (if i \<in> reach ?h (Some p)
           then (Heap w2 ! i)\<lparr>RunningChildren := RunningChildren (Heap w2 ! i) + diff\<rparr> else Heap w2 ! i)"
      using len reach_cong[OF len par] by auto
    have notin: "x \<notin> reach ?h (Some p)"
      using ancestor_wf[of ?h x x] less.prems(1) ancestor_iff[of ?h x x] x Some by auto
    have r: "reach ?h (Some x) = insert x (reach ?h (Some p))"
      using x Some by (simp add: reach_Some[of ?h x])
    have "\<forall>i < length ?h. Heap w' ! i =
          (if i \<in> reach ?h (Some x)
           then (?h ! i)\<lparr>RunningChildren := RunningChildren (?h ! i) + diff\<rparr> else ?h ! i)"
      using w'(3) notin x unfolding r by (auto simp: h2 X_def nth_list_update)
    then show ?thesis using unf Some w'(1,2) by simp
  qed
qed


lemma in_subtree_reach: "d < length h \<Longrightarrow> in_subtree h c d \<longleftrightarrow> c \<in> reach h (Some d)"
  using ancestor_iff[of h c d] by (auto simp: in_subtree_def reach_Some[of h d])

lemma SetState_effect:
  assumes "wf_heap (Heap w)" "x < length (Heap w)"
  shows "\<exists>w'. SetState x newState w = Some w' \<and> length (Heap w') = length (Heap w) \<and>
     (\<forall>i < length (Heap w). Heap w' ! i =
        (Heap w ! i)\<lparr>State := (if i = x then newState else State (Heap w ! i)),
           RunningChildren := RunningChildren (Heap w ! i) +
             (if in_subtree (Heap w) i x then
                (if newState = Running \<and> State (Heap w ! x) \<noteq> Running then 1
                 else if State (Heap w ! x) = Running \<and> newState \<noteq> Running then - 1 else 0)
              else 0)\<rparr>)"
proof -
  let ?h = "Heap w"
  note sub = in_subtree_reach[OF assms(2)]
  consider (same) "State (?h ! x) = newState"
    | (up) "State (?h ! x) \<noteq> newState" "newState = Running"
    | (down) "State (?h ! x) \<noteq> newState" "newState \<noteq> Running" "State (?h ! x) = Running"
    | (other) "State (?h ! x) \<noteq> newState" "newState \<noteq> Running" "State (?h ! x) \<noteq> Running"
    by blast
  then show ?thesis
  proof cases
    case same
    then show ?thesis using assms(2) by (auto simp: SetState_def)
  next
    case up
    obtain w1 where w1: "UpdateRunningChildren x 1 w = Some w1" "length (Heap w1) = length ?h"
       "\<forall>i < length ?h. Heap w1 ! i =
          (if i \<in> reach ?h (Some x)
           then (?h ! i)\<lparr>RunningChildren := RunningChildren (?h ! i) + 1\<rparr> else ?h ! i)"
      using URC_wf[OF assms, of 1] by blast
    show ?thesis
      using up w1 assms(2)
      by (auto simp: SetState_def Let_def NotifyWaiters_def nth_list_update sub)
  next
    case down
    obtain w1 where w1: "UpdateRunningChildren x (- 1) w = Some w1" "length (Heap w1) = length ?h"
       "\<forall>i < length ?h. Heap w1 ! i =
          (if i \<in> reach ?h (Some x)
           then (?h ! i)\<lparr>RunningChildren := RunningChildren (?h ! i) + (- 1)\<rparr> else ?h ! i)"
      using URC_wf[OF assms, of "- 1"] by blast
    show ?thesis
      using down w1 assms(2)
      by (auto simp: SetState_def Let_def NotifyWaiters_def nth_list_update sub)
  next
    case other
    then show ?thesis using assms(2)
      by (auto simp: SetState_def Let_def NotifyWaiters_def nth_list_update)
  qed
qed

lemma in_subtree_cong:
  assumes "length h' = length h" "\<forall>i < length h. Parent (h' ! i) = Parent (h ! i)"
  shows "in_subtree h' c d = in_subtree h c d"
  by (simp add: in_subtree_def ancestor_cong[OF assms])

lemma finite_running: "finite {d. d < (n::nat) \<and> P d}"
  by (rule finite_subset[of _ "{..<n}"]) auto

lemma running_insert:
  assumes "x < length h" "length h' = length h"
    "\<forall>d < length h. State (h' ! d) = (if d = x then Running else State (h ! d))"
    "\<forall>d. in_subtree h' c d = in_subtree h c d"
    "State (h ! x) \<noteq> Running"
  shows "running_in_subtree h' c = running_in_subtree h c + (if in_subtree h c x then 1 else 0)"
proof -
  let ?S = "{d. d < length h \<and> State (h ! d) = Running \<and> in_subtree h c d}"
  have eq: "{d. d < length h' \<and> State (h' ! d) = Running \<and> in_subtree h' c d} =
        (if in_subtree h c x then insert x ?S else ?S)"
    using assms by (auto split: if_splits)
  have nin: "x \<notin> ?S" using assms(5) by simp
  have fin: "finite ?S" by (rule finite_running)
  show ?thesis
    unfolding running_in_subtree_def eq using card_insert_disjoint[OF fin nin] by simp
qed

lemma running_remove:
  assumes "x < length h" "length h' = length h"
    "\<forall>d < length h. State (h' ! d) = (if d = x then s else State (h ! d))"
    "\<forall>d. in_subtree h' c d = in_subtree h c d"
    "State (h ! x) = Running" "s \<noteq> Running"
  shows "running_in_subtree h c = running_in_subtree h' c + (if in_subtree h c x then 1 else 0)"
proof -
  let ?S = "{d. d < length h \<and> State (h ! d) = Running \<and> in_subtree h c d}"
  let ?S' = "{d. d < length h' \<and> State (h' ! d) = Running \<and> in_subtree h' c d}"
  have eq: "?S = (if in_subtree h c x then insert x ?S' else ?S')"
    using assms by (auto split: if_splits)
  have nin: "x \<notin> ?S'" using assms by simp
  have fin: "finite ?S'" by (rule finite_running)
  show ?thesis
    unfolding running_in_subtree_def eq using card_insert_disjoint[OF fin nin] by simp
qed

lemma running_same:
  assumes "length h' = length h"
    "\<forall>d < length h. (State (h' ! d) = Running) = (State (h ! d) = Running)"
    "\<forall>d. in_subtree h' c d = in_subtree h c d"
  shows "running_in_subtree h' c = running_in_subtree h c"
proof -
  have "{d. d < length h' \<and> State (h' ! d) = Running \<and> in_subtree h' c d} =
        {d. d < length h \<and> State (h ! d) = Running \<and> in_subtree h c d}"
    using assms by auto
  then show ?thesis by (simp add: running_in_subtree_def)
qed


text \<open>
  C1 (as stated, refuted). In \<open>world0\<close> the root is Meta and its child \<open>a\<close> is Stopped;
  all counters are 0, as the claim wants. After \<open>a\<close> goes to Running, the counter of
  \<open>a\<close> itself is 1 although \<open>a\<close> has no descendant at all. After \<open>a\<close> goes to
  Meta instead, the counter of its ancestor, the root, is still 0: a Meta container
  contributes nothing.
\<close>

theorem RunningChildren_claimed_count_counterexample:
  "SetState 1 Running world0 =
     Some \<lparr>Heap = [ct_root\<lparr>RunningChildren := 1\<rparr>,
                     ct_a\<lparr>State := Running, RunningChildren := 1\<rparr>],
             Containers = [(''/'', 0), (''a'', 1)], Notified = []\<rparr> \<and>
   claimed_running_descendants
     [ct_root\<lparr>RunningChildren := 1\<rparr>, ct_a\<lparr>State := Running, RunningChildren := 1\<rparr>] 1 = 0 \<and>
   SetState 1 Meta world0 =
     Some \<lparr>Heap = [ct_root, ct_a\<lparr>State := Meta\<rparr>],
             Containers = [(''/'', 0), (''a'', 1)], Notified = []\<rparr> \<and>
   RunningChildren ([ct_root, ct_a\<lparr>State := Meta\<rparr>] ! 0) = 0"
proof -
  let ?h = "[ct_root\<lparr>RunningChildren := 1\<rparr>, ct_a\<lparr>State := Running, RunningChildren := 1\<rparr>]"
  have wf: "wf_heap ?h"
    by (simp add: wf_heap_def ct_root_def ct_a_def less_Suc_eq)
  have "\<not> ancestor ?h 1 d" for d
  proof
    assume a: "ancestor ?h 1 d"
    then have "d < length ?h" by (auto elim: ancestor.cases)
    moreover have "Level (?h ! 1) < Level (?h ! d)" using ancestor_wf[OF a wf] by simp
    ultimately show False by (auto simp: less_Suc_eq ct_root_def ct_a_def)
  qed
  then have "claimed_running_descendants ?h 1 = 0"
    by (simp add: claimed_running_descendants_def)
  moreover have "SetState 1 Running world0 = Some \<lparr>Heap = ?h, Containers = [(''/'', 0), (''a'', 1)], Notified = []\<rparr>"
    by (simp add: SetState_def UpdateRunningChildren.simps world0_def ct_root_def ct_a_def
        NotifyWaiters_def Let_def)
  moreover have "SetState 1 Meta world0 =
     Some \<lparr>Heap = [ct_root, ct_a\<lparr>State := Meta\<rparr>],
             Containers = [(''/'', 0), (''a'', 1)], Notified = []\<rparr>"
    by (simp add: SetState_def world0_def ct_root_def ct_a_def NotifyWaiters_def Let_def)
  moreover have "RunningChildren ([ct_root, ct_a\<lparr>State := Meta\<rparr>] ! 0) = 0"
    by (simp add: ct_root_def)
  ultimately show ?thesis by simp
qed

text \<open>
  C1 (amended). For every container \<open>c\<close>, \<^verbatim>\<open>RunningChildren\<close> of \<open>c\<close> is the number
  of containers in the subtree of \<open>c\<close>, \<open>c\<close> included, whose state is Running (as a
  \<^verbatim>\<open>size_t\<close>); Meta containers are not counted. Every \<^verbatim>\<open>SetState\<close> on a
  well-formed heap returns and keeps this invariant: a transition into Running adds 1 to
  the counter of the container and of each of its ancestors up to the root, a transition
  out of Running subtracts 1 from them, and every other transition leaves all counters
  as they are.
\<close>

theorem SetState_counts_running:
  assumes wf: "wf_heap (Heap w)" and x: "x < length (Heap w)" and inv: "rc_inv (Heap w)"
  shows "\<exists>w'. SetState x newState w = Some w' \<and> wf_heap (Heap w') \<and> rc_inv (Heap w') \<and>
     length (Heap w') = length (Heap w) \<and>
     (\<forall>c < length (Heap w).
        State (Heap w' ! c) = (if c = x then newState else State (Heap w ! c)) \<and>
        RunningChildren (Heap w' ! c) = RunningChildren (Heap w ! c) +
          (if in_subtree (Heap w) c x then
             (if newState = Running \<and> State (Heap w ! x) \<noteq> Running then 1
              else if State (Heap w ! x) = Running \<and> newState \<noteq> Running then - 1 else 0)
           else 0))"
proof -
  let ?h = "Heap w"
  obtain w' where w': "SetState x newState w = Some w'" "length (Heap w') = length ?h"
    and eff: "\<forall>i < length ?h. Heap w' ! i =
        (?h ! i)\<lparr>State := (if i = x then newState else State (?h ! i)),
           RunningChildren := RunningChildren (?h ! i) +
             (if in_subtree ?h i x then
                (if newState = Running \<and> State (?h ! x) \<noteq> Running then 1
                 else if State (?h ! x) = Running \<and> newState \<noteq> Running then - 1 else 0)
              else 0)\<rparr>"
    using SetState_effect[OF wf x, of newState] by blast
  let ?h' = "Heap w'"
  have par: "\<forall>i < length ?h. Parent (?h' ! i) = Parent (?h ! i)" using eff by simp
  have lev: "\<forall>i < length ?h. Level (?h' ! i) = Level (?h ! i)" using eff by simp
  have st: "\<forall>d < length ?h. State (?h' ! d) = (if d = x then newState else State (?h ! d))"
    using eff by simp
  have sub: "\<forall>c d. in_subtree ?h' c d = in_subtree ?h c d"
    using in_subtree_cong[OF w'(2) par] by simp
  have wf': "wf_heap ?h'" by (rule wf_heap_cong[OF w'(2) par lev wf])
  have "rc_inv ?h'"
    unfolding rc_inv_def
  proof (intro allI impI)
    fix c assume "c < length ?h'"
    then have c: "c < length ?h" using w'(2) by simp
    have old: "RunningChildren (?h ! c) = of_nat (running_in_subtree ?h c)"
      using inv c by (simp add: rc_inv_def)
    have new: "RunningChildren (?h' ! c) = RunningChildren (?h ! c) +
             (if in_subtree ?h c x then
                (if newState = Running \<and> State (?h ! x) \<noteq> Running then 1
                 else if State (?h ! x) = Running \<and> newState \<noteq> Running then - 1 else 0)
              else 0)"
      using eff c by simp
    consider (up) "newState = Running" "State (?h ! x) \<noteq> Running"
      | (down) "State (?h ! x) = Running" "newState \<noteq> Running"
      | (same) "(newState = Running) = (State (?h ! x) = Running)"
      by blast
    then show "RunningChildren (?h' ! c) = of_nat (running_in_subtree ?h' c)"
    proof cases
      case up
      have "running_in_subtree ?h' c = running_in_subtree ?h c + (if in_subtree ?h c x then 1 else 0)"
        by (rule running_insert[OF x w'(2) _ _ up(2)]) (use st sub up in auto)
      then show ?thesis using new old up by simp
    next
      case down
      have "running_in_subtree ?h c = running_in_subtree ?h' c + (if in_subtree ?h c x then 1 else 0)"
        by (rule running_remove[OF x w'(2) _ _ down(1) down(2)]) (use st sub in auto)
      then show ?thesis using new old down by simp
    next
      case same
      have "running_in_subtree ?h' c = running_in_subtree ?h c"
        by (rule running_same[OF w'(2)]) (use st sub same in auto)
      then show ?thesis using new old same by auto
    qed
  qed
  then show ?thesis using w' wf' eff by auto
qed

lemma rc_inv_world0: "rc_inv (Heap world0)"
proof -
  have ns: "State (Heap world0 ! d) \<noteq> Running" if "d < length (Heap world0)" for d
    using that by (cases d) (auto simp: world0_def ct_root_def ct_a_def)
  have "running_in_subtree (Heap world0) c = 0" for c
  proof -
    have "{d. d < length (Heap world0) \<and> State (Heap world0 ! d) = Running \<and>
              in_subtree (Heap world0) c d} = {}"
      using ns by blast
    then show ?thesis unfolding running_in_subtree_def by simp
  qed
  moreover have "RunningChildren (Heap world0 ! c) = 0" if "c < length (Heap world0)" for c
    using that by (cases c) (auto simp: world0_def ct_root_def ct_a_def)
  ultimately show ?thesis
    by (simp add: rc_inv_def)
qed

theorem SetState_counts_running_witness:
  "wf_heap (Heap world0) \<and> 1 < length (Heap world0) \<and> rc_inv (Heap world0) \<and>
   SetState 1 Running world0 =
     Some \<lparr>Heap = [ct_root\<lparr>RunningChildren := 1\<rparr>,
                     ct_a\<lparr>State := Running, RunningChildren := 1\<rparr>],
             Containers = [(''/'', 0), (''a'', 1)], Notified = []\<rparr> \<and>
   rc_inv [ct_root\<lparr>RunningChildren := 1\<rparr>, ct_a\<lparr>State := Running, RunningChildren := 1\<rparr>]"
proof -
  have wf: "wf_heap (Heap world0)" using wf_heap_example by (simp add: world0_def)
  have x: "1 < length (Heap world0)" by (simp add: world0_def)
  have e: "SetState 1 Running world0 =
     Some \<lparr>Heap = [ct_root\<lparr>RunningChildren := 1\<rparr>,
                     ct_a\<lparr>State := Running, RunningChildren := 1\<rparr>],
             Containers = [(''/'', 0), (''a'', 1)], Notified = []\<rparr>"
    by (simp add: SetState_def UpdateRunningChildren.simps world0_def ct_root_def ct_a_def
        NotifyWaiters_def Let_def)
  show ?thesis
    using SetState_counts_running[OF wf x rc_inv_world0, of Running] wf x rc_inv_world0 e
    by auto
qed

section \<open>Helpers declared outside the sources at hand, and the registry lookup\<close>

text \<open>
  Modelled from the spec: \<^verbatim>\<open>TContainer::IsRoot\<close> is declared in container.hpp, which is
  not among the sources at hand; the spec's root container is the one named \<open>/\<close>.
\<close>

definition IsRoot :: "TContainer \<Rightarrow> bool" where
  "IsRoot X = (Name X = ROOT_CONTAINER)"

text \<open>
  Modelled from the spec: \<^verbatim>\<open>TCred::IsRootUser\<close> and \<^verbatim>\<open>TCred::IsMemberOf\<close> are defined
  in util/cred.cpp, which is not among the sources at hand: the root user has uid 0, and
  a credential is a member of a group that is its gid or one of its supplementary groups.
\<close>

definition IsRootUser :: "TCred \<Rightarrow> bool" where
  "IsRootUser cred = (Uid cred = 0)"

definition IsMemberOf :: "TCred \<Rightarrow> nat \<Rightarrow> bool" where
  "IsMemberOf cred grp = (Gid cred = grp \<or> grp \<in> set (Groups cred))"

text \<open>\<^verbatim>\<open>TContainer::Find\<close>, in its two forms.\<close>

definition Find :: "(string \<times> cid) list \<Rightarrow> string \<Rightarrow> cid option" where
  "Find containers name = map_of containers name"

definition Find_error :: "(string \<times> cid) list \<Rightarrow> string \<Rightarrow> EError + cid" where
  "Find_error containers name =
     (case Find containers name of None \<Rightarrow> Inl ContainerDoesNotExist | Some ct \<Rightarrow> Inr ct)"

definition StringStartsWith :: "string \<Rightarrow> string \<Rightarrow> bool" where
  "StringStartsWith str prefix = (take (length prefix) str = prefix)"

section \<open>Creating a container: \<^verbatim>\<open>TContainer::Create\<close>\<close>

text \<open>\<^verbatim>\<open>name.rfind(c)\<close>: the index of the last \<open>c\<close>, \<open>None\<close> for \<^verbatim>\<open>npos\<close>.\<close>

definition rfind :: "string \<Rightarrow> char \<Rightarrow> nat option" where
  "rfind s c =
     (if c \<in> set s then Some (length s - 1 - length (takeWhile (\<lambda>d. d \<noteq> c) (rev s))) else None)"

definition ParentName :: "string \<Rightarrow> string" where
  "ParentName name =
     (case rfind name (CHR ''/'') of None \<Rightarrow> ROOT_CONTAINER | Some sep \<Rightarrow> substr name 0 sep)"

text \<open>
  What \<^verbatim>\<open>Create\<close> reads from outside the registry: the limits (declared in headers and
  in the configuration, outside the sources at hand, hence parameters; the sum
  \<open>max_total + NR_SERVICE_CONTAINERS\<close> is taken without wrap-around), the verdict of
  \<^verbatim>\<open>CurrentClient->CanControl(*parent, true)\<close>, the id that \<^verbatim>\<open>ContainerIdMap.Get\<close> hands
  out or its error, the client's credential, the groups that \<^verbatim>\<open>LoadGroups\<close> loads or
  its error, the result of \<^verbatim>\<open>Save\<close>, and the configuration switches the constructor
  reads.
\<close>

record create_env =
  CONTAINER_PATH_MAX :: nat
  CONTAINER_NAME_MAX :: nat
  CONTAINER_LEVEL_MAX :: nat
  max_total :: nat
  NR_SERVICE_CONTAINERS :: nat
  CanControl :: "cid \<Rightarrow> EError"
  IdMap_Get :: "EError + nat"
  client_Cred :: TCred
  LoadGroups :: "EError + nat list"
  Save_result :: EError
  legacy_porto :: bool
  cpuacct_separate :: bool
  all_controllers :: bool
  default_aging_time_s :: nat

text \<open>
  The constructor \<^verbatim>\<open>TContainer(parent, name)\<close>, for the fields of the record. The fields
  it does not assign (\<^verbatim>\<open>State\<close>, \<^verbatim>\<open>RunningChildren\<close>, \<^verbatim>\<open>Locked\<close>, \<^verbatim>\<open>Id\<close>, the pids,
  \<^verbatim>\<open>DeathTime\<close>, \<^verbatim>\<open>ExitStatus\<close>, \<^verbatim>\<open>OomKilled\<close>) get their initial values in
  container.hpp, which is not among the sources at hand; they are taken from the spec
  (a new container is Stopped, and \<^verbatim>\<open>Create\<close> itself sets that state again) and are
  otherwise zero and false. No statement below depends on them.
\<close>

definition TContainer_new :: "create_env \<Rightarrow> heap \<Rightarrow> cid option \<Rightarrow> string \<Rightarrow> TContainer" where
  "TContainer_new env h parent name =
     \<lparr>Id = 0, Name = name, Parent = parent, Children = [],
      Level = (case parent of None \<Rightarrow> 0 | Some p \<Rightarrow> Level (h ! p) + 1),
      State = Stopped, RunningChildren = 0, Locked = 0,
      AccessLevel = (case parent of None \<Rightarrow> Normal
                     | Some p \<Rightarrow> if level_rank (AccessLevel (h ! p)) < level_rank ChildOnly
                                then AccessLevel (h ! p) else Normal),
      Isolate = True, VirtMode = VIRT_MODE_APP,
      Controllers = {CGROUP_FREEZER}
        \<union> (if legacy_porto env then {CGROUP_LEGACY} else {})
        \<union> (if cpuacct_separate env then {CGROUP_CPUACCT} else {})
        \<union> (if (case parent of None \<Rightarrow> True | Some p \<Rightarrow> IsRoot (h ! p)) \<or> all_controllers env
            then {CGROUP_MEMORY, CGROUP_CPU, CGROUP_CPUACCT, CGROUP_NETCLS, CGROUP_BLKIO,
                  CGROUP_DEVICES}
            else {}),
      TaskPid = 0, TaskVPid = 0, WaitTaskPid = 0, DeathTime = 0, ExitStatus = 0,
      OomKilled = False, AgingTime = default_aging_time_s env * 1000,
      ToRespawn = False, MaxRespawns = - 1, RespawnCount = 0, Command = [],
      OwnerCred = \<lparr>Uid = 0, Gid = 0, Groups = []\<rparr>\<rparr>"

text \<open>\<^verbatim>\<open>Containers[Name] = ...\<close> on the entries of the \<^verbatim>\<open>std::map\<close>, kept in key order.\<close>

fun map_set :: "string \<Rightarrow> cid \<Rightarrow> (string \<times> cid) list \<Rightarrow> (string \<times> cid) list" where
  "map_set k v [] = [(k, v)]"
| "map_set k v ((k', v') # rest) =
     (if k = k' then (k, v) # rest
      else if k < k' then (k, v) # (k', v') # rest
      else (k', v') # map_set k v rest)"

text \<open>
  \<^verbatim>\<open>
  void TContainer::Register() {
      Containers[Name] = shared_from_this();
      if (Parent)
          Parent->Children.emplace_back(shared_from_this());
      Statistics->ContainersCreated++;
  }
  \<close>
\<close>

definition Register :: "cid \<Rightarrow> world \<Rightarrow> world" where
  "Register x w =
     w\<lparr>Containers := map_set (Name (Heap w ! x)) x (Containers w),
       Heap := (case Parent (Heap w ! x) of None \<Rightarrow> Heap w
                | Some p \<Rightarrow> (Heap w)[p := (Heap w ! p)\<lparr>Children := Children (Heap w ! p) @ [x]\<rparr>])\<rparr>"

text \<open>
  The part of \<^verbatim>\<open>Create\<close> from \<^verbatim>\<open>std::make_shared<TContainer>(parent, name)\<close> on. The new
  object gets the next free address. On the \<^verbatim>\<open>err:\<close> path the id is handed back
  (\<^verbatim>\<open>ContainerIdMap.Put\<close>) and \<^verbatim>\<open>ct = nullptr\<close> drops the only reference, so the object
  is gone: the state is the one before the call. \<^verbatim>\<open>SanitizeCapabilities\<close> and the
  \<^verbatim>\<open>SetProp\<close> calls write fields that are not in the record.
\<close>

definition Create_object :: "create_env \<Rightarrow> string \<Rightarrow> cid option \<Rightarrow> world \<Rightarrow> (EError \<times> world) option" where
  "Create_object env name parent w =
     (let x = length (Heap w);
          X = TContainer_new env (Heap w) parent name
      in case IdMap_Get env of
           Inl e \<Rightarrow> Some (e, w)
         | Inr new_id \<Rightarrow>
             (case LoadGroups env of
                Inl e \<Rightarrow> Some (e, w)
              | Inr groups \<Rightarrow>
                  (case SetState x Stopped
                          (w\<lparr>Heap := Heap w @
                             [X\<lparr>Id := new_id,
                                OwnerCred := (client_Cred env)\<lparr>Groups := groups\<rparr>\<rparr>]\<rparr>) of
                     None \<Rightarrow> None
                   | Some w1 \<Rightarrow>
                       if Save_result env \<noteq> Success then Some (Save_result env, w)
                       else Some (Success, Register x (w1\<lparr>Heap := (Heap w1)
                              [x := (Heap w1 ! x)\<lparr>RespawnCount := 0\<rparr>]\<rparr>)))))"

definition Create :: "create_env \<Rightarrow> string \<Rightarrow> world \<Rightarrow> (EError \<times> world) option" where
  "Create env name w =
     (if ValidName (CONTAINER_PATH_MAX env) (CONTAINER_NAME_MAX env) name \<noteq> Success
      then Some (ValidName (CONTAINER_PATH_MAX env) (CONTAINER_NAME_MAX env) name, w)
      else if Find (Containers w) name \<noteq> None then Some (ContainerAlreadyExists, w)
      else if length (Containers w) \<ge> max_total env + NR_SERVICE_CONTAINERS env
      then Some (ResourceNotAvailable, w)
      else case Find (Containers w) (ParentName name) of
             Some p \<Rightarrow>
               if p < length (Heap w) then
                 (if Level (Heap w ! p) = CONTAINER_LEVEL_MAX env then Some (InvalidValue, w)
                  else if CanControl env p \<noteq> Success then Some (CanControl env p, w)
                  else Create_object env name (Some p) w)
               else None
           | None \<Rightarrow>
               if name \<noteq> ROOT_CONTAINER then Some (ContainerDoesNotExist, w)
               else Create_object env name None w)"

text \<open>In a well-formed registry every entry points into the heap.\<close>

definition registry_ok :: "world \<Rightarrow> bool" where
  "registry_ok w = (\<forall>c \<in> snd ` set (Containers w). c < length (Heap w))"

definition cenv0 :: create_env where
  "cenv0 = \<lparr>CONTAINER_PATH_MAX = 200, CONTAINER_NAME_MAX = 128, CONTAINER_LEVEL_MAX = 7,
     max_total = 3000, NR_SERVICE_CONTAINERS = 1, CanControl = (\<lambda>p. Success),
     IdMap_Get = Inr 3, client_Cred = \<lparr>Uid = 1000, Gid = 1000, Groups = []\<rparr>,
     LoadGroups = Inr [1000], Save_result = Success, legacy_porto = False,
     cpuacct_separate = False, all_controllers = False, default_aging_time_s = 86400\<rparr>"

lemma Create_object_failure:
  "\<exists>r w'. Create_object env name parent w = Some (r, w') \<and> (r \<noteq> Success \<longrightarrow> w' = w)"
  by (auto simp: Create_object_def SetState_def TContainer_new_def Let_def nth_append
      split: sum.splits)

text \<open>
  C6. For a name that \<^verbatim>\<open>ValidName\<close> accepts, \<^verbatim>\<open>Create\<close> fails with
  ContainerAlreadyExists when the name is registered; otherwise with ResourceNotAvailable
  when the registry holds at least \<open>max_total + NR_SERVICE_CONTAINERS\<close> entries;
  otherwise with ContainerDoesNotExist when the name is not the root name and its parent
  is not registered; and with an error (InvalidValue) when the parent is at
  \<^verbatim>\<open>CONTAINER_LEVEL_MAX\<close>. \<^verbatim>\<open>Create\<close> always returns, and whenever it returns an
  error the heap, the registry and the notification log are those before the call.
\<close>

theorem Create_failures:
  assumes valid: "ValidName (CONTAINER_PATH_MAX env) (CONTAINER_NAME_MAX env) name = Success"
    and reg: "registry_ok w"
  shows "(Find (Containers w) name \<noteq> None \<longrightarrow> Create env name w = Some (ContainerAlreadyExists, w)) \<and>
     (Find (Containers w) name = None \<and>
        length (Containers w) \<ge> max_total env + NR_SERVICE_CONTAINERS env \<longrightarrow>
          Create env name w = Some (ResourceNotAvailable, w)) \<and>
     (Find (Containers w) name = None \<and>
        length (Containers w) < max_total env + NR_SERVICE_CONTAINERS env \<and>
        name \<noteq> ROOT_CONTAINER \<and> Find (Containers w) (ParentName name) = None \<longrightarrow>
          Create env name w = Some (ContainerDoesNotExist, w)) \<and>
     (\<forall>p. Find (Containers w) name = None \<and>
        length (Containers w) < max_total env + NR_SERVICE_CONTAINERS env \<and>
        Find (Containers w) (ParentName name) = Some p \<and>
        Level (Heap w ! p) = CONTAINER_LEVEL_MAX env \<longrightarrow>
          Create env name w = Some (InvalidValue, w)) \<and>
     (\<exists>r w'. Create env name w = Some (r, w') \<and> (r \<noteq> Success \<longrightarrow> w' = w))"
proof -
  have ptr: "p < length (Heap w)" if "Find (Containers w) n = Some p" for n p
    using that reg map_of_SomeD[of "Containers w" n p]
    by (force simp: registry_ok_def Find_def)
  have last: "\<exists>r w'. Create env name w = Some (r, w') \<and> (r \<noteq> Success \<longrightarrow> w' = w)"
  proof (cases "Find (Containers w) (ParentName name)")
    case None
    then show ?thesis
      using Create_object_failure[of env name None w] by (auto simp: Create_def)
  next
    case (Some p)
    then show ?thesis
      using Create_object_failure[of env name "Some p" w] ptr[OF Some] by (auto simp: Create_def)
  qed
  show ?thesis
    using valid last ptr by (auto simp: Create_def)
qed

theorem Create_failures_witness:
  "ValidName (CONTAINER_PATH_MAX cenv0) (CONTAINER_NAME_MAX cenv0) ''a'' = Success \<and>
   ValidName (CONTAINER_PATH_MAX cenv0) (CONTAINER_NAME_MAX cenv0) ''c/b'' = Success \<and>
   ValidName (CONTAINER_PATH_MAX cenv0) (CONTAINER_NAME_MAX cenv0) ''a/b'' = Success \<and>
   registry_ok world0 \<and>
   Find (Containers world0) ''a'' \<noteq> None \<and>
   Create cenv0 ''a'' world0 = Some (ContainerAlreadyExists, world0) \<and>
   Find (Containers world0) ''c/b'' = None \<and>
   length (Containers world0) \<ge> max_total (cenv0\<lparr>max_total := 1\<rparr>) + NR_SERVICE_CONTAINERS cenv0 \<and>
   Create (cenv0\<lparr>max_total := 1\<rparr>) ''c/b'' world0 = Some (ResourceNotAvailable, world0) \<and>
   ''c/b'' \<noteq> ROOT_CONTAINER \<and> Find (Containers world0) (ParentName ''c/b'') = None \<and>
   Create cenv0 ''c/b'' world0 = Some (ContainerDoesNotExist, world0) \<and>
   Find (Containers world0) (ParentName ''a/b'') = Some 1 \<and>
   Level (Heap world0 ! 1) = CONTAINER_LEVEL_MAX (cenv0\<lparr>CONTAINER_LEVEL_MAX := 1\<rparr>) \<and>
   Create (cenv0\<lparr>CONTAINER_LEVEL_MAX := 1\<rparr>) ''a/b'' world0 = Some (InvalidValue, world0)"
proof -
  have v: "ValidName (CONTAINER_PATH_MAX cenv0) (CONTAINER_NAME_MAX cenv0) ''a'' = Success"
      "ValidName (CONTAINER_PATH_MAX cenv0) (CONTAINER_NAME_MAX cenv0) ''c/b'' = Success"
      "ValidName (CONTAINER_PATH_MAX cenv0) (CONTAINER_NAME_MAX cenv0) ''a/b'' = Success"
    by (simp_all add: cenv0_def ValidName_def ValidName_loop.simps char_at_def
        name_char_def substr_def SELF_CONTAINER_def DOT_CONTAINER_def)
  have r: "registry_ok world0" by (simp add: registry_ok_def world0_def)
  have f: "Find (Containers world0) ''a'' \<noteq> None" "Find (Containers world0) ''c/b'' = None"
     "Find (Containers world0) ''a/b'' = None"
     "Find (Containers world0) (ParentName ''c/b'') = None"
     "Find (Containers world0) (ParentName ''a/b'') = Some 1"
     "''c/b'' \<noteq> ROOT_CONTAINER"
    by (simp_all add: Find_def world0_def ParentName_def rfind_def substr_def ROOT_CONTAINER_def)
  have n: "length (Containers world0) \<ge> max_total (cenv0\<lparr>max_total := 1\<rparr>) + NR_SERVICE_CONTAINERS cenv0"
      "length (Containers world0) < max_total cenv0 + NR_SERVICE_CONTAINERS cenv0"
      "Level (Heap world0 ! 1) = CONTAINER_LEVEL_MAX (cenv0\<lparr>CONTAINER_LEVEL_MAX := 1\<rparr>)"
    by (simp_all add: world0_def cenv0_def ct_a_def ct_root_def)
  have v': "ValidName (CONTAINER_PATH_MAX (cenv0\<lparr>max_total := 1\<rparr>)) (CONTAINER_NAME_MAX (cenv0\<lparr>max_total := 1\<rparr>)) ''c/b'' = Success"
     "ValidName (CONTAINER_PATH_MAX (cenv0\<lparr>CONTAINER_LEVEL_MAX := 1\<rparr>)) (CONTAINER_NAME_MAX (cenv0\<lparr>CONTAINER_LEVEL_MAX := 1\<rparr>)) ''a/b'' = Success"
    using v by simp_all
  show ?thesis
    using Create_failures[OF v(1) r] Create_failures[OF v'(1) r] Create_failures[OF v(2) r]
          Create_failures[OF v'(2) r] v r f n
    by simp
qed
section \<open>Starting a container: resources in \<^verbatim>\<open>TContainer::Start\<close>\<close>

text \<open>
  Modelled from the spec: \<^verbatim>\<open>TContainer::IsMeta\<close> is declared in container.hpp, which is
  not among the sources at hand; a meta container is a container without a command.
\<close>

definition IsMeta :: "TContainer \<Rightarrow> bool" where
  "IsMeta X = (Command X = [])"

text \<open>
  The kernel resources a container can hold, and the calls that acquire and release
  them. The resources themselves live in the kernel and the file system; what is kept
  here is which of them the container holds and the sequence of the calls made.
\<close>

datatype resource = WorkDir | Cgroups | OomMonitor | RootVolume | Network

datatype call =
    Call_PrepareWorkDir | Call_PrepareCgroups | Call_VolumeCreate | Call_ParseNetConfig
  | Call_PrepareNetwork | Call_ApplyDynamicProperties | Call_PrepareTask | Call_TaskEnvStart
  | Call_FreeResources | Call_UpdateSoftLimit | Call_Save

text \<open>
  The results of the calls into the kernel drivers, the network and the property store,
  and the tests on values that are not in the record: whether the root path is a regular
  file (an image to mount on a loop device), whether the container ended up on the host
  network with a client below SuperUser, and whether its ambient capabilities meet the
  net-namespace set.
\<close>

record start_env =
  PrepareWorkDir_result :: EError
  PrepareCgroups_result :: EError
  root_is_image :: bool
  VolumeCreate_result :: EError
  ParseNetConfig_result :: EError
  PrepareNetwork_result :: EError
  ApplyDynamicProperties_result :: EError
  host_net_unprivileged :: bool
  ambient_netns_caps :: bool
  PrepareTask_result :: EError
  TaskEnvStart_result :: EError
  HasOomReceived :: bool
  Save_start_result :: EError

record start_state =
  World :: world
  Held :: "resource set"
  Calls :: "call list"

definition called :: "call \<Rightarrow> start_state \<Rightarrow> start_state" where
  "called c st = st\<lparr>Calls := Calls st @ [c]\<rparr>"

definition acquire :: "resource set \<Rightarrow> start_state \<Rightarrow> start_state" where
  "acquire rs st = st\<lparr>Held := Held st \<union> rs\<rparr>"

text \<open>
  \<^verbatim>\<open>FreeResources\<close> shuts the OOM monitor down, removes the cgroups, destroys the network
  and the root volume and removes the working directory; failures are only logged.
\<close>

definition FreeResources :: "start_state \<Rightarrow> start_state" where
  "FreeResources st = (called Call_FreeResources st)\<lparr>Held := {}\<rparr>"

text \<open>
  \<^verbatim>\<open>PrepareResources\<close>: each failing step frees what was acquired and returns the error.
  \<^verbatim>\<open>PrepareCgroups\<close> sets the OOM monitor up for a non-root container with the memory
  controller.
\<close>

definition PrepareResources :: "start_env \<Rightarrow> cid \<Rightarrow> start_state \<Rightarrow> EError \<times> start_state" where
  "PrepareResources env x st =
     (let X = Heap (World st) ! x;
          st1 = called Call_PrepareWorkDir st in
      if PrepareWorkDir_result env \<noteq> Success
      then (PrepareWorkDir_result env, FreeResources st1)
      else
        (let st2 = called Call_PrepareCgroups (acquire {WorkDir} st1) in
         if PrepareCgroups_result env \<noteq> Success
         then (PrepareCgroups_result env, FreeResources st2)
         else
           (let st3 = acquire ({Cgroups} \<union>
                        (if \<not> IsRoot X \<and> CGROUP_MEMORY \<in> Controllers X then {OomMonitor} else {}))
                        st2 in
            if root_is_image env then
              (let st4 = called Call_VolumeCreate st3 in
               if VolumeCreate_result env \<noteq> Success
               then (VolumeCreate_result env, FreeResources st4)
               else (Success, acquire {RootVolume} st4))
            else (Success, st3))))"

text \<open>
  \<^verbatim>\<open>Start\<close> from the call of \<^verbatim>\<open>PrepareResources\<close> to its end (the checks before it
  return without touching any resource). The label \<^verbatim>\<open>error:\<close> is \<open>Start_error\<close>.
  \<^verbatim>\<open>
      error = PrepareResources();
      if (error) return error;
      error = ParseNetConfig(NetCfg);
      if (error) return error;
      error = PrepareNetwork(NetCfg);
      if (error) goto error;
      if (!IsRoot()) {
          error = ApplyDynamicProperties();
          if (error) return error;
      }
      ...
  error:
      FreeResources();
      return error;
  \<close>
\<close>

definition Start_error :: "EError \<Rightarrow> start_state \<Rightarrow> (EError \<times> start_state) option" where
  "Start_error e st = Some (e, FreeResources st)"

definition Start_finish :: "start_env \<Rightarrow> cid \<Rightarrow> start_state \<Rightarrow> (EError \<times> start_state) option" where
  "Start_finish env x st =
     (case SetState x (if IsMeta (Heap (World st) ! x) then Meta else Running) (World st) of
        None \<Rightarrow> None
      | Some w \<Rightarrow>
          Some (Save_start_result env,
                called Call_Save (called Call_UpdateSoftLimit (st\<lparr>World := w\<rparr>))))"

definition Start_task :: "start_env \<Rightarrow> cid \<Rightarrow> start_state \<Rightarrow> (EError \<times> start_state) option" where
  "Start_task env x st =
     (let X = Heap (World st) ! x in
      if \<not> IsMeta X \<or> Isolate X then
        (let st1 = called Call_PrepareTask st in
         if PrepareTask_result env \<noteq> Success then Start_error (PrepareTask_result env) st1
         else
           (let st2 = called Call_TaskEnvStart st1;
                error = (if TaskEnvStart_result env \<noteq> Success \<and> HasOomReceived env
                         then InvalidValue else TaskEnvStart_result env) in
            if error \<noteq> Success then Start_error error st2
            else Start_finish env x st2))
      else Start_finish env x st)"

definition Start_from_PrepareResources ::
    "start_env \<Rightarrow> cid \<Rightarrow> start_state \<Rightarrow> (EError \<times> start_state) option" where
  "Start_from_PrepareResources env x st =
     (if x < length (Heap (World st)) then
        (let X = Heap (World st) ! x in
         case PrepareResources env x st of (error, st1) \<Rightarrow>
         if error \<noteq> Success then Some (error, st1)
         else
           (let st2 = called Call_ParseNetConfig st1 in
            if ParseNetConfig_result env \<noteq> Success then Some (ParseNetConfig_result env, st2)
            else
              (let st3 = called Call_PrepareNetwork st2 in
               if PrepareNetwork_result env \<noteq> Success
               then Start_error (PrepareNetwork_result env) st3
               else
                 (let st4 = acquire {Network} st3;
                      st5 = (if \<not> IsRoot X then called Call_ApplyDynamicProperties st4 else st4) in
                  if \<not> IsRoot X \<and> ApplyDynamicProperties_result env \<noteq> Success
                  then Some (ApplyDynamicProperties_result env, st5)
                  else if host_net_unprivileged env \<and> ambient_netns_caps env
                  then Start_error Permission st5
                  else if host_net_unprivileged env \<and> VirtMode X = VIRT_MODE_OS
                  then Start_error Permission st5
                  else Start_task env x st5))))
      else None)"

text \<open>
  Concrete inputs: every call succeeds (\<open>senv0\<close>), and the state before \<^verbatim>\<open>Start\<close> of a
  Stopped container \<open>a\<close> below the root, with a command and the controllers of a
  first-level container, which holds nothing.
\<close>

definition senv0 :: start_env where
  "senv0 = \<lparr>PrepareWorkDir_result = Success, PrepareCgroups_result = Success,
     root_is_image = False, VolumeCreate_result = Success, ParseNetConfig_result = Success,
     PrepareNetwork_result = Success, ApplyDynamicProperties_result = Success,
     host_net_unprivileged = False, ambient_netns_caps = False, PrepareTask_result = Success,
     TaskEnvStart_result = Success, HasOomReceived = False, Save_start_result = Success\<rparr>"

definition ct_task :: TContainer where
  "ct_task = ct_a\<lparr>Command := ''sleep 60'',
     Controllers := {CGROUP_FREEZER, CGROUP_MEMORY, CGROUP_CPU, CGROUP_CPUACCT, CGROUP_NETCLS,
                     CGROUP_BLKIO, CGROUP_DEVICES}\<rparr>"

definition start0 :: start_state where
  "start0 = \<lparr>World = \<lparr>Heap = [ct_root, ct_task], Containers = [(''/'', 0), (''a'', 1)],
                         Notified = []\<rparr>,
              Held = {}, Calls = []\<rparr>"

lemma Start_error_frees:
  "Start_error e st = Some (r, st') \<Longrightarrow>
     r = e \<and> Held st' = {} \<and> Call_FreeResources \<in> set (Calls st')"
  by (auto simp: Start_error_def FreeResources_def called_def)

lemma PrepareResources_failure_frees:
  "PrepareResources env x st = (e, st') \<Longrightarrow> e \<noteq> Success \<Longrightarrow>
     Held st' = {} \<and> Call_FreeResources \<in> set (Calls st')"
  by (auto simp: PrepareResources_def FreeResources_def called_def acquire_def Let_def
      split: if_splits)

text \<open>
  C4 (the code departs from the claim). \<^verbatim>\<open>PrepareResources\<close> has succeeded and the
  container \<open>a\<close> holds its working directory, its cgroups and its OOM monitor. When
  \<^verbatim>\<open>ParseNetConfig\<close> then fails, \<^verbatim>\<open>Start\<close> returns the error straight away:
  \<^verbatim>\<open>FreeResources\<close> is not among the calls made and the three resources are still held.
  The same happens when \<^verbatim>\<open>ApplyDynamicProperties\<close> fails, now with the network held as
  well. The failure of \<^verbatim>\<open>PrepareNetwork\<close> between the two goes to \<^verbatim>\<open>error:\<close> and frees
  everything, as the claim says every failure should.
\<close>

theorem Start_leaks_resources:
  "Start_from_PrepareResources (senv0\<lparr>ParseNetConfig_result := InvalidValue\<rparr>) 1 start0 =
     Some (InvalidValue,
           start0\<lparr>Held := {WorkDir, Cgroups, OomMonitor},
                  Calls := [Call_PrepareWorkDir, Call_PrepareCgroups, Call_ParseNetConfig]\<rparr>) \<and>
   Start_from_PrepareResources (senv0\<lparr>ApplyDynamicProperties_result := InvalidValue\<rparr>) 1 start0 =
     Some (InvalidValue,
           start0\<lparr>Held := {WorkDir, Cgroups, OomMonitor, Network},
                  Calls := [Call_PrepareWorkDir, Call_PrepareCgroups, Call_ParseNetConfig,
                            Call_PrepareNetwork, Call_ApplyDynamicProperties]\<rparr>) \<and>
   Start_from_PrepareResources (senv0\<lparr>PrepareNetwork_result := InvalidValue\<rparr>) 1 start0 =
     Some (InvalidValue,
           start0\<lparr>Held := {},
                  Calls := [Call_PrepareWorkDir, Call_PrepareCgroups, Call_ParseNetConfig,
                            Call_PrepareNetwork, Call_FreeResources]\<rparr>)"
  by (auto simp add: Start_from_PrepareResources_def PrepareResources_def Start_task_def
      Start_finish_def Start_error_def FreeResources_def called_def acquire_def IsRoot_def
      IsMeta_def ROOT_CONTAINER_def senv0_def start0_def ct_task_def ct_root_def ct_a_def Let_def)

section \<open>Event dispatch: \<^verbatim>\<open>TContainer::Event\<close>\<close>

datatype EEventType = OOM | Respawn | Exit | WaitTimeout | DestroyWeak | RotateLogs

text \<open>
  A \<^verbatim>\<open>TEvent\<close> as the dispatcher sees it: \<open>Container\<close> is the result of
  \<^verbatim>\<open>event.Container.lock()\<close> (\<open>None\<close> when the weak pointer has expired), \<open>WaiterAlive\<close>
  whether \<^verbatim>\<open>event.WaitTimeout.Waiter.lock()\<close> is a waiter.
\<close>

record TEvent =
  Type :: EEventType
  Container :: "cid option"
  ExitPid :: int
  ExitStatus_ev :: int
  WaiterAlive :: bool

text \<open>
  What the dispatcher does to the outside, in order: the calls of the container
  operations, of the log rotation, of the statistics counter and of the network refresh,
  and the releases of the registry mutex by \<^verbatim>\<open>lock.unlock()\<close>.
\<close>

datatype action =
    Act_Exit cid int bool
  | Act_Respawn cid
  | Act_AckExitStatus int
  | Act_WakeupWaiter
  | Act_Destroy cid
  | Act_CountRemoveDead cid
  | Act_RotateStdout cid
  | Act_RotateStderr cid
  | Act_UnlockContainers
  | Act_RefreshNetworks

text \<open>
  The clock (\<^verbatim>\<open>GetCurrentTimeMs\<close>); the default value of the parameter \<^verbatim>\<open>locked\<close> of
  \<^verbatim>\<open>Unlock\<close>, which container.hpp declares and which is not among the sources at hand,
  hence a parameter; and the effect on the heap and the registry of the three container
  operations the dispatcher calls (\<^verbatim>\<open>Exit\<close>, \<^verbatim>\<open>Respawn\<close>, \<^verbatim>\<open>Destroy\<close>), which are
  inputs here: the dispatch is the same whatever they do.
\<close>

record event_env =
  now :: nat
  Unlock_default_locked :: bool
  do_Exit :: "cid \<Rightarrow> int \<Rightarrow> bool \<Rightarrow> world \<Rightarrow> world"
  do_Respawn :: "cid \<Rightarrow> world \<Rightarrow> world"
  do_Destroy :: "cid \<Rightarrow> world \<Rightarrow> world"

definition SIGKILL :: int where "SIGKILL = 9"

text \<open>
  The state of one dispatch: the world, the calls made so far, and whether the local
  \<^verbatim>\<open>lock\<close> owns \<^verbatim>\<open>ContainersMutex\<close>. The lock is a \<^verbatim>\<open>TScopedLock\<close>; \<^verbatim>\<open>Lock\<close> hands it to
  \<^verbatim>\<open>ContainersCV.wait\<close>, and \<^verbatim>\<open>ContainersCV\<close> is a \<^verbatim>\<open>std::condition_variable\<close>, so it is
  a \<^verbatim>\<open>std::unique_lock<std::mutex>\<close>.
\<close>

record dispatch =
  W :: world
  Acts :: "action list"
  Owned :: bool

text \<open>
  The ways a dispatch ends other than by reaching the end of the \<^verbatim>\<open>switch\<close>: an
  exception \<^verbatim>\<open>std::system_error\<close> leaves \<^verbatim>\<open>Event\<close>; the thread waits on the condition
  variable, after which what happens depends on the other threads; or the step has no
  defined continuation (a failed \<^verbatim>\<open>PORTO_ASSERT\<close>, a null or dangling pointer, locking
  a \<^verbatim>\<open>std::mutex\<close> the thread already owns, waiting with a lock that does not own its
  mutex). The state is the one reached when the dispatch ends.
\<close>

datatype stop = Throws_system_error | Waits_on_CV | Crashes

datatype 'a res = Stops stop dispatch | Goes 'a dispatch

definition bind_res :: "'a res \<Rightarrow> ('a \<Rightarrow> dispatch \<Rightarrow> 'b res) \<Rightarrow> 'b res" where
  "bind_res r k = (case r of Stops s d \<Rightarrow> Stops s d | Goes x d \<Rightarrow> k x d)"

definition act :: "action \<Rightarrow> dispatch \<Rightarrow> unit res" where
  "act a d = Goes () (d\<lparr>Acts := Acts d @ [a]\<rparr>)"

text \<open>
  \<^verbatim>\<open>lock.unlock()\<close>: \<^verbatim>\<open>std::unique_lock::unlock\<close> throws \<^verbatim>\<open>std::system_error\<close> when the
  lock does not own the mutex.
\<close>

definition lock_unlock :: "dispatch \<Rightarrow> unit res" where
  "lock_unlock d =
     (if Owned d then Goes () (d\<lparr>Owned := False, Acts := Acts d @ [Act_UnlockContainers]\<rparr>)
      else Stops Throws_system_error d)"

text \<open>
  Modelled from the spec: the default arguments of \<^verbatim>\<open>Lock\<close> and the method \<^verbatim>\<open>LockRead\<close>
  are declared in container.hpp, which is not among the sources at hand. By the spec
  the dispatcher's \<^verbatim>\<open>ct->Lock(lock)\<close> is the blocking write lock and
  \<^verbatim>\<open>ct->LockRead(lock)\<close> the blocking read lock: \<^verbatim>\<open>Lock\<close> with \<open>try_lock = false\<close>.
  When the container is busy \<^verbatim>\<open>Lock\<close> calls \<^verbatim>\<open>ContainersCV.wait(lock)\<close>, which requires
  the lock to own the mutex.
\<close>

definition ct_Lock :: "cid \<Rightarrow> bool \<Rightarrow> dispatch \<Rightarrow> EError res" where
  "ct_Lock ct shared d =
     (case Lock ct shared False (Heap (W d)) of
        None \<Rightarrow> Stops Crashes d
      | Some (WaitCV, h) \<Rightarrow> Stops (if Owned d then Waits_on_CV else Crashes) d
      | Some (Return error, h) \<Rightarrow> Goes error (d\<lparr>W := (W d)\<lparr>Heap := h\<rparr>\<rparr>))"

text \<open>
  \<^verbatim>\<open>ct->Unlock()\<close>, with the default value of \<^verbatim>\<open>locked\<close>:
  \<^verbatim>\<open>
    if (!locked)
        ContainersMutex.lock();
    ...
    if (!locked)
        ContainersMutex.unlock();
  \<close>
  \<^verbatim>\<open>ContainersMutex\<close> is a \<^verbatim>\<open>std::mutex\<close>: locking it in the thread whose \<^verbatim>\<open>lock\<close> owns
  it has no defined behaviour.
\<close>

definition ct_Unlock :: "event_env \<Rightarrow> cid \<Rightarrow> dispatch \<Rightarrow> unit res" where
  "ct_Unlock env ct d =
     (if Owned d \<and> \<not> Unlock_default_locked env then Stops Crashes d
      else case Unlock ct (Heap (W d)) of
             None \<Rightarrow> Stops Crashes d
           | Some h \<Rightarrow> Goes () (d\<lparr>W := (W d)\<lparr>Heap := h\<rparr>\<rparr>))"

definition ct_Exit :: "event_env \<Rightarrow> cid \<Rightarrow> int \<Rightarrow> bool \<Rightarrow> dispatch \<Rightarrow> unit res" where
  "ct_Exit env ct status oomKilled d =
     Goes () (d\<lparr>W := do_Exit env ct status oomKilled (W d),
                Acts := Acts d @ [Act_Exit ct status oomKilled]\<rparr>)"

definition ct_Respawn :: "event_env \<Rightarrow> cid \<Rightarrow> dispatch \<Rightarrow> unit res" where
  "ct_Respawn env ct d =
     Goes () (d\<lparr>W := do_Respawn env ct (W d), Acts := Acts d @ [Act_Respawn ct]\<rparr>)"

definition ct_Destroy :: "event_env \<Rightarrow> cid \<Rightarrow> dispatch \<Rightarrow> unit res" where
  "ct_Destroy env ct d =
     Goes () (d\<lparr>W := do_Destroy env ct (W d), Acts := Acts d @ [Act_Destroy ct]\<rparr>)"

text \<open>
  \<^verbatim>\<open>
  bool TContainer::MayRespawn() {
      if (State != EContainerState::Dead)
          return false;
      if (!ToRespawn)
          return false;
      if (Parent->State != EContainerState::Running &&
          Parent->State != EContainerState::Meta) {
          return false;
      }
      return MaxRespawns < 0 || RespawnCount < (uint64_t)MaxRespawns;
  }
  \<close>
  \<^verbatim>\<open>Parent->State\<close> is read without a null test: for a container without parent the
  call has no value (\<open>None\<close>). The last comparison is one of \<^verbatim>\<open>uint64_t\<close> values.
\<close>

definition MayRespawn :: "heap \<Rightarrow> cid \<Rightarrow> bool option" where
  "MayRespawn h ct =
     (if length h \<le> ct then None
      else if State (h ! ct) \<noteq> Dead then Some False
      else if \<not> ToRespawn (h ! ct) then Some False
      else case Parent (h ! ct) of
             None \<Rightarrow> None
           | Some p \<Rightarrow>
               if length h \<le> p then None
               else if State (h ! p) \<noteq> Running \<and> State (h ! p) \<noteq> Meta then Some False
               else Some (MaxRespawns (h ! ct) < 0 \<or>
                          (word_of_nat (RespawnCount (h ! ct)) :: 64 word) <
                            word_of_int (MaxRespawns (h ! ct))))"

text \<open>
  \<^verbatim>\<open>
  bool TContainer::Expired() const {
      if (State != EContainerState::Dead)
          return false;
      return GetCurrentTimeMs() >= DeathTime + AgingTime;
  }
  \<close>
  The times are \<^verbatim>\<open>uint64_t\<close> values: the sum wraps around.
\<close>

definition Expired :: "nat \<Rightarrow> TContainer \<Rightarrow> bool" where
  "Expired t X =
     (if State X \<noteq> Dead then False
      else (word_of_nat (DeathTime X) :: 64 word) + word_of_nat (AgingTime X) \<le> word_of_nat t)"

text \<open>
  The entries of the registry are shared pointers: each is the address of an object of
  the heap.
\<close>

definition live_registry :: "world \<Rightarrow> bool" where
  "live_registry w = list_all (\<lambda>(name, ct). ct < length (Heap w)) (Containers w)"

text \<open>
  The bodies of the \<^verbatim>\<open>case\<close> labels, each up to its closing brace.
  \<^verbatim>\<open>
    case EEventType::OOM:
    {
        if (ct) {
            error = ct->Lock(lock);
            lock.unlock();
            if (!error) {
                ct->Exit(SIGKILL, true);
                ct->Unlock();
            }
        }
        break;
    }
  \<close>
\<close>

definition Event_OOM :: "event_env \<Rightarrow> TEvent \<Rightarrow> dispatch \<Rightarrow> unit res" where
  "Event_OOM env ev d =
     (case Container ev of
        None \<Rightarrow> Goes () d
      | Some ct \<Rightarrow>
          bind_res (ct_Lock ct False d) (\<lambda>error d.
          bind_res (lock_unlock d) (\<lambda>u d.
          if error = Success
          then bind_res (ct_Exit env ct SIGKILL True d) (\<lambda>u. ct_Unlock env ct)
          else Goes () d)))"

text \<open>
  \<^verbatim>\<open>
    case EEventType::Respawn:
    {
        if (ct && ct->MayRespawn()) {
            error = ct->Lock(lock);
            lock.unlock();
            if (!error) {
                if (ct->MayRespawn())
                    ct->Respawn();
                ct->Unlock();
            }
        }
        break;
    }
  \<close>
\<close>

definition Event_Respawn :: "event_env \<Rightarrow> TEvent \<Rightarrow> dispatch \<Rightarrow> unit res" where
  "Event_Respawn env ev d =
     (case Container ev of
        None \<Rightarrow> Goes () d
      | Some ct \<Rightarrow>
          (case MayRespawn (Heap (W d)) ct of
             None \<Rightarrow> Stops Crashes d
           | Some may \<Rightarrow>
               if may then
                 bind_res (ct_Lock ct False d) (\<lambda>error d.
                 bind_res (lock_unlock d) (\<lambda>u d.
                 if error = Success
                 then (case MayRespawn (Heap (W d)) ct of
                         None \<Rightarrow> Stops Crashes d
                       | Some again \<Rightarrow>
                           bind_res (if again then ct_Respawn env ct d else Goes () d)
                             (\<lambda>u. ct_Unlock env ct))
                 else Goes () d))
               else Goes () d))"

text \<open>
  \<^verbatim>\<open>
    case EEventType::Exit:
    {
        for (auto &it: Containers) {
            auto ct = it.second;
            if (ct->WaitTask.Pid != event.Exit.Pid)
                continue;
            error = ct->Lock(lock);
            lock.unlock();
            if (!error) {
                ct->Exit(event.Exit.Status, false);
                ct->Unlock();
            }
            break;
        }
        AckExitStatus(event.Exit.Pid);
    }
  \<close>
\<close>

definition Event_Exit :: "event_env \<Rightarrow> TEvent \<Rightarrow> dispatch \<Rightarrow> unit res" where
  "Event_Exit env ev d =
     (if \<not> live_registry (W d) then Stops Crashes d
      else
        bind_res
          (case find (\<lambda>(name, ct). WaitTaskPid (Heap (W d) ! ct) = ExitPid ev) (Containers (W d)) of
             None \<Rightarrow> Goes () d
           | Some (name, ct) \<Rightarrow>
               bind_res (ct_Lock ct False d) (\<lambda>error d.
               bind_res (lock_unlock d) (\<lambda>u d.
               if error = Success
               then bind_res (ct_Exit env ct (ExitStatus_ev ev) False d) (\<lambda>u. ct_Unlock env ct)
               else Goes () d)))
          (\<lambda>u. act (Act_AckExitStatus (ExitPid ev))))"

text \<open>
  \<^verbatim>\<open>
    case EEventType::WaitTimeout:
    {
        auto w = event.WaitTimeout.Waiter.lock();
        if (w)
            w->WakeupWaiter(nullptr);
        break;
    }
  \<close>
\<close>

definition Event_WaitTimeout :: "event_env \<Rightarrow> TEvent \<Rightarrow> dispatch \<Rightarrow> unit res" where
  "Event_WaitTimeout env ev d = (if WaiterAlive ev then act Act_WakeupWaiter d else Goes () d)"

text \<open>
  \<^verbatim>\<open>
    case EEventType::DestroyWeak:
    {
        if (ct) {
            error = ct->Lock(lock);
            lock.unlock();
            if (!error) {
               ct->Destroy();
               ct->Unlock();
            }
        }
    }
  \<close>
\<close>

definition Event_DestroyWeak :: "event_env \<Rightarrow> TEvent \<Rightarrow> dispatch \<Rightarrow> unit res" where
  "Event_DestroyWeak env ev d =
     (case Container ev of
        None \<Rightarrow> Goes () d
      | Some ct \<Rightarrow>
          bind_res (ct_Lock ct False d) (\<lambda>error d.
          bind_res (lock_unlock d) (\<lambda>u d.
          if error = Success
          then bind_res (ct_Destroy env ct d) (\<lambda>u. ct_Unlock env ct)
          else Goes () d)))"

text \<open>
  \<^verbatim>\<open>
    case EEventType::RotateLogs:
    {
        for (auto &it : Containers) {
            auto &ct = it.second;
            if (ct->Expired()) {
                /* FIXME */
                Statistics->RemoveDead++;
            }
            if (ct->State == EContainerState::Running) {
                error = ct->LockRead(lock);
                if (!error) {
                    if (ct->State == EContainerState::Running) {
                        ct->Stdout.Rotate(*ct);
                        ct->Stderr.Rotate(*ct);
                    }
                    ct->Unlock();
                }
            }
        }
        lock.unlock();
        TNetwork::RefreshNetworks();
        break;
    }
  \<close>
  The body of the loop changes lock counters only, so the loop runs over the entries the
  registry has when it starts.
\<close>

definition RotateLogs_one :: "event_env \<Rightarrow> cid \<Rightarrow> dispatch \<Rightarrow> unit res" where
  "RotateLogs_one env ct d =
     bind_res
       (if Expired (now env) (Heap (W d) ! ct) then act (Act_CountRemoveDead ct) d else Goes () d)
       (\<lambda>u d.
          if State (Heap (W d) ! ct) = Running then
            bind_res (ct_Lock ct True d) (\<lambda>error d.
            if error = Success
            then bind_res
                   (if State (Heap (W d) ! ct) = Running
                    then bind_res (act (Act_RotateStdout ct) d) (\<lambda>u. act (Act_RotateStderr ct))
                    else Goes () d)
                   (\<lambda>u. ct_Unlock env ct)
            else Goes () d)
          else Goes () d)"

fun RotateLogs_loop :: "event_env \<Rightarrow> cid list \<Rightarrow> dispatch \<Rightarrow> unit res" where
  "RotateLogs_loop env [] d = Goes () d"
| "RotateLogs_loop env (ct # cts) d =
     bind_res (RotateLogs_one env ct d) (\<lambda>u. RotateLogs_loop env cts)"

definition Event_RotateLogs :: "event_env \<Rightarrow> TEvent \<Rightarrow> dispatch \<Rightarrow> unit res" where
  "Event_RotateLogs env ev d =
     (if \<not> live_registry (W d) then Stops Crashes d
      else
        bind_res (RotateLogs_loop env (map snd (Containers (W d))) d) (\<lambda>u d.
        bind_res (lock_unlock d) (\<lambda>u. act Act_RefreshNetworks)))"

text \<open>
  \<^verbatim>\<open>Event\<close>: \<^verbatim>\<open>auto lock = LockContainers()\<close> takes the registry mutex, then comes the
  \<^verbatim>\<open>switch (event.Type)\<close>. The bodies of \<^verbatim>\<open>OOM\<close>, \<^verbatim>\<open>Respawn\<close>, \<^verbatim>\<open>WaitTimeout\<close> and
  \<^verbatim>\<open>RotateLogs\<close> end in \<^verbatim>\<open>break\<close>; the body of \<^verbatim>\<open>Exit\<close> is followed directly by
  \<^verbatim>\<open>case EEventType::WaitTimeout:\<close>, and the body of \<^verbatim>\<open>DestroyWeak\<close> directly by
  \<^verbatim>\<open>case EEventType::RotateLogs:\<close>, so control runs on into those bodies. On return the
  destructor of \<^verbatim>\<open>lock\<close> releases the mutex if the lock still owns it.
\<close>

definition Event :: "event_env \<Rightarrow> TEvent \<Rightarrow> world \<Rightarrow> unit res" where
  "Event env ev w =
     (case Type ev of
        OOM \<Rightarrow> Event_OOM env ev \<lparr>W = w, Acts = [], Owned = True\<rparr>
      | Respawn \<Rightarrow> Event_Respawn env ev \<lparr>W = w, Acts = [], Owned = True\<rparr>
      | Exit \<Rightarrow> bind_res (Event_Exit env ev \<lparr>W = w, Acts = [], Owned = True\<rparr>)
                  (\<lambda>u. Event_WaitTimeout env ev)
      | WaitTimeout \<Rightarrow> Event_WaitTimeout env ev \<lparr>W = w, Acts = [], Owned = True\<rparr>
      | DestroyWeak \<Rightarrow> bind_res (Event_DestroyWeak env ev \<lparr>W = w, Acts = [], Owned = True\<rparr>)
                         (\<lambda>u. Event_RotateLogs env ev)
      | RotateLogs \<Rightarrow> Event_RotateLogs env ev \<lparr>W = w, Acts = [], Owned = True\<rparr>)"

text \<open>
  Concrete input: the root, a Stopped weak container \<open>a\<close> whose client has gone, and a
  Running container \<open>r\<close>; no container is locked. For a Stopped container without
  children, volumes or network, \<^verbatim>\<open>Destroy\<close> (which takes the registry mutex itself)
  erases the registry entry, removes the object from its parent's children and sets its
  state to Destroyed.
\<close>

definition world_weak :: world where
  "world_weak = \<lparr>Heap = [ct_root\<lparr>Children := [1, 2], RunningChildren := 1\<rparr>, ct_a, ct_r],
                 Containers = [(''/'', 0), (''a'', 1), (''r'', 2)], Notified = []\<rparr>"

definition world_weak_destroyed :: world where
  "world_weak_destroyed =
     \<lparr>Heap = [ct_root\<lparr>Children := [2], RunningChildren := 1\<rparr>, ct_a\<lparr>State := Destroyed\<rparr>, ct_r],
      Containers = [(''/'', 0), (''r'', 2)], Notified = []\<rparr>"

definition destroy_leaf :: "cid \<Rightarrow> world \<Rightarrow> world" where
  "destroy_leaf x w =
     w\<lparr>Containers := filter (\<lambda>(name, ct). ct \<noteq> x) (Containers w),
       Heap := (case Parent (Heap w ! x) of
                  None \<Rightarrow> Heap w
                | Some p \<Rightarrow> (Heap w)[p := (Heap w ! p)\<lparr>Children := removeAll x (Children (Heap w ! p))\<rparr>])
               [x := (Heap w ! x)\<lparr>State := Destroyed\<rparr>]\<rparr>"

definition eenv0 :: "bool \<Rightarrow> event_env" where
  "eenv0 dflt = \<lparr>now = 1000, Unlock_default_locked = dflt,
                 do_Exit = (\<lambda>ct status oom w. w), do_Respawn = (\<lambda>ct w. w),
                 do_Destroy = destroy_leaf\<rparr>"

definition ev_destroy_weak :: TEvent where
  "ev_destroy_weak = \<lparr>Type = DestroyWeak, Container = Some 1, ExitPid = 0, ExitStatus_ev = 0,
                      WaiterAlive = False\<rparr>"

subsection \<open>The DestroyWeak event runs on into the rotation of the logs\<close>

lemma Lock_a_world_weak:
  "Lock 1 False False [ct_root\<lparr>Children := [1, 2], RunningChildren := 1\<rparr>, ct_a, ct_r] =
     Some (Return Success,
       [ct_root\<lparr>Children := [1, 2], RunningChildren := 1, Locked := 1\<rparr>, ct_a\<lparr>Locked := - 1\<rparr>, ct_r])"
  by (simp add: Lock_def Lock_busy.simps Lock_parents.simps ct_root_def ct_a_def)

lemma Unlock_a_destroyed:
  "Unlock 1 [ct_root\<lparr>Children := [2], RunningChildren := 1, Locked := 1\<rparr>,
             ct_a\<lparr>Locked := - 1, State := Destroyed\<rparr>, ct_r] =
     Some [ct_root\<lparr>Children := [2], RunningChildren := 1\<rparr>, ct_a\<lparr>State := Destroyed\<rparr>, ct_r]"
  by (simp add: Unlock_def Unlock_parents.simps ct_root_def ct_a_def)

lemma Lock_r_read:
  "Lock 2 True False [ct_root\<lparr>Children := [2], RunningChildren := 1\<rparr>, ct_a\<lparr>State := Destroyed\<rparr>, ct_r] =
     Some (Return Success,
       [ct_root\<lparr>Children := [2], RunningChildren := 1, Locked := 1\<rparr>, ct_a\<lparr>State := Destroyed\<rparr>,
        ct_r\<lparr>Locked := 1\<rparr>])"
  by (simp add: Lock_def Lock_busy.simps Lock_parents.simps ct_root_def ct_a_def ct_r_def)

lemma Unlock_r_read:
  "Unlock 2 [ct_root\<lparr>Children := [2], RunningChildren := 1, Locked := 1\<rparr>, ct_a\<lparr>State := Destroyed\<rparr>,
             ct_r\<lparr>Locked := 1\<rparr>] =
     Some [ct_root\<lparr>Children := [2], RunningChildren := 1\<rparr>, ct_a\<lparr>State := Destroyed\<rparr>, ct_r]"
  by (simp add: Unlock_def Unlock_parents.simps ct_root_def ct_a_def ct_r_def)

lemma destroy_leaf_world_weak:
  "destroy_leaf 1 \<lparr>Heap = [ct_root\<lparr>Children := [1, 2], RunningChildren := 1, Locked := 1\<rparr>,
                            ct_a\<lparr>Locked := - 1\<rparr>, ct_r],
                    Containers = [(''/'', 0), (''a'', 1), (''r'', 2)], Notified = []\<rparr> =
     \<lparr>Heap = [ct_root\<lparr>Children := [2], RunningChildren := 1, Locked := 1\<rparr>,
              ct_a\<lparr>Locked := - 1, State := Destroyed\<rparr>, ct_r],
      Containers = [(''/'', 0), (''r'', 2)], Notified = []\<rparr>"
  by (simp add: destroy_leaf_def ct_root_def ct_a_def)

lemma Event_DestroyWeak_live:
  "Event_DestroyWeak (eenv0 dflt) ev_destroy_weak \<lparr>W = world_weak, Acts = [], Owned = True\<rparr> =
     Goes () \<lparr>W = world_weak_destroyed, Acts = [Act_UnlockContainers, Act_Destroy 1], Owned = False\<rparr>"
  by (simp add: Event_DestroyWeak_def ev_destroy_weak_def world_weak_def world_weak_destroyed_def
      bind_res_def ct_Lock_def lock_unlock_def ct_Destroy_def ct_Unlock_def eenv0_def
      Lock_a_world_weak [unfolded One_nat_def] destroy_leaf_world_weak [unfolded One_nat_def]
      Unlock_a_destroyed [unfolded One_nat_def])

lemma RotateLogs_loop_after_destroy:
  "RotateLogs_loop (eenv0 dflt) [0, 2] \<lparr>W = world_weak_destroyed, Acts = acts, Owned = False\<rparr> =
     Goes () \<lparr>W = world_weak_destroyed, Acts = acts @ [Act_RotateStdout 2, Act_RotateStderr 2],
              Owned = False\<rparr>"
proof -
  have root: "RotateLogs_one (eenv0 dflt) 0 \<lparr>W = world_weak_destroyed, Acts = acts, Owned = False\<rparr> =
      Goes () \<lparr>W = world_weak_destroyed, Acts = acts, Owned = False\<rparr>"
    by (simp add: RotateLogs_one_def bind_res_def Expired_def world_weak_destroyed_def ct_root_def)
  have st: "State ct_r = Running" "\<not> Expired t ct_r" for t
    by (simp_all add: Expired_def ct_r_def ct_a_def ct_root_def)
  have r: "RotateLogs_one (eenv0 dflt) 2 \<lparr>W = world_weak_destroyed, Acts = acts, Owned = False\<rparr> =
      Goes () \<lparr>W = world_weak_destroyed, Acts = acts @ [Act_RotateStdout 2, Act_RotateStderr 2],
               Owned = False\<rparr>"
    by (simp add: RotateLogs_one_def bind_res_def world_weak_destroyed_def st ct_Lock_def
        ct_Unlock_def act_def Lock_r_read Unlock_r_read)
  show ?thesis by (simp add: bind_res_def root r)
qed

text \<open>
  C8 (the code departs from the claim). The body of \<^verbatim>\<open>case EEventType::DestroyWeak\<close> has
  no \<^verbatim>\<open>break\<close>, so control runs on into \<^verbatim>\<open>case EEventType::RotateLogs\<close>. Dispatching
  the DestroyWeak event for the live weak container \<open>a\<close> destroys \<open>a\<close> and then rotates
  the stdout and stderr logs of the Running container \<open>r\<close>. The registry mutex was
  released before \<^verbatim>\<open>Destroy\<close>, so the \<^verbatim>\<open>lock.unlock()\<close> that follows the rotation throws
  \<^verbatim>\<open>std::system_error\<close>: the dispatch ends by that exception and the network statistics
  are not refreshed. This is so whatever the default of the parameter of \<^verbatim>\<open>Unlock\<close> is.
\<close>

theorem Event_DestroyWeak_falls_through:
  "Event (eenv0 False) ev_destroy_weak world_weak =
     Stops Throws_system_error
       \<lparr>W = world_weak_destroyed,
        Acts = [Act_UnlockContainers, Act_Destroy 1, Act_RotateStdout 2, Act_RotateStderr 2],
        Owned = False\<rparr> \<and>
   Event (eenv0 True) ev_destroy_weak world_weak =
     Stops Throws_system_error
       \<lparr>W = world_weak_destroyed,
        Acts = [Act_UnlockContainers, Act_Destroy 1, Act_RotateStdout 2, Act_RotateStderr 2],
        Owned = False\<rparr>"
proof -
  have live: "live_registry world_weak_destroyed"
    by (simp add: live_registry_def world_weak_destroyed_def)
  have regs: "map snd (Containers world_weak_destroyed) = [0, 2]"
    by (simp add: world_weak_destroyed_def)
  have ty: "Type ev_destroy_weak = DestroyWeak" by (simp add: ev_destroy_weak_def)
  have "Event (eenv0 dflt) ev_destroy_weak world_weak =
     Stops Throws_system_error
       \<lparr>W = world_weak_destroyed,
        Acts = [Act_UnlockContainers, Act_Destroy 1, Act_RotateStdout 2, Act_RotateStderr 2],
        Owned = False\<rparr>" for dflt
    by (simp add: Event_def ty Event_DestroyWeak_live bind_res_def Event_RotateLogs_def live regs
        RotateLogs_loop_after_destroy lock_unlock_def del: RotateLogs_loop.simps)
  then show ?thesis by simp
qed

section \<open>Stopping a container: \<^verbatim>\<open>TContainer::Stop\<close> and \<^verbatim>\<open>TContainer::StopOne\<close>\<close>

text \<open>
  \<^verbatim>\<open>
  std::list<std::shared_ptr<TContainer>> TContainer::Subtree() {
      std::list<std::shared_ptr<TContainer>> subtree {shared_from_this()};
      for (auto it = subtree.rbegin(); it != subtree.rend(); ++it) {
          for (auto &child: (*it)->Children)
              subtree.emplace_front(child);
      }
      return subtree;
  }
  \<close>
  The reverse iterator walks from the back of the list to its front while the children of
  each element it visits are put in front: \<open>todo\<close> are the elements not yet visited, in
  the order of the visits, and \<open>subtree\<close> is the list built so far. The result lists every
  descendant before its parent and the container itself last.
\<close>

partial_function (option) Subtree_loop :: "heap \<Rightarrow> cid list \<Rightarrow> cid list \<Rightarrow> cid list option" where
  "Subtree_loop h todo subtree =
     (case todo of
        [] \<Rightarrow> Some subtree
      | x # rest \<Rightarrow>
          if x < length h
          then Subtree_loop h (rest @ Children (h ! x)) (rev (Children (h ! x)) @ subtree)
          else None)"

declare Subtree_loop.simps [code]

definition Subtree :: "heap \<Rightarrow> cid \<Rightarrow> cid list option" where
  "Subtree h x = Subtree_loop h [x] [x]"

text \<open>
  What \<^verbatim>\<open>Stop\<close> reads from and does to the kernel: the clock, the state of a container's
  freezer cgroup, the results of \<^verbatim>\<open>cg.KillAll(SIGKILL)\<close> and of
  \<^verbatim>\<open>FreezerSubsystem.Thaw\<close>, the result of the part of \<^verbatim>\<open>Terminate\<close> that works on the
  cgroup (from \<^verbatim>\<open>cg.IsEmpty()\<close> on: SIGTERM, the wait for the deadline, the kill passes),
  and the result of \<^verbatim>\<open>Save\<close>.
\<close>

record stop_env =
  now_ms :: nat
  IsFrozen :: "cid \<Rightarrow> bool"
  IsParentFreezing :: "cid \<Rightarrow> bool"
  KillAll_result :: "cid \<Rightarrow> EError"
  Thaw_result :: "cid \<Rightarrow> EError"
  KillTasks_result :: "cid \<Rightarrow> nat \<Rightarrow> EError"
  Save_stop_result :: "cid \<Rightarrow> EError"

definition Terminate :: "stop_env \<Rightarrow> cid \<Rightarrow> nat \<Rightarrow> heap \<Rightarrow> EError" where
  "Terminate env x deadline h =
     (if IsRoot (h ! x) then Permission
      else if CGROUP_FREEZER \<notin> Controllers (h ! x)
      then (if TaskPid (h ! x) \<noteq> 0 then NotSupported else Success)
      else KillTasks_result env x deadline)"

text \<open>
  \<^verbatim>\<open>StopOne\<close>. \<^verbatim>\<open>ClearProp\<close> and \<^verbatim>\<open>FreeResources\<close> write fields that are not in the
  record and release kernel resources; the result is that of \<^verbatim>\<open>Save\<close>.
\<close>

definition StopOne :: "stop_env \<Rightarrow> cid \<Rightarrow> nat \<Rightarrow> world \<Rightarrow> (EError \<times> world) option" where
  "StopOne env x deadline w =
     (if x < length (Heap w) then
        (if State (Heap w ! x) = Stopped then Some (Success, w)
         else if \<not> IsRoot (Heap w ! x) \<and> Terminate env x deadline (Heap w) \<noteq> Success
         then Some (Terminate env x deadline (Heap w), w)
         else
           case SetState x Stopped
                  (w\<lparr>Heap := (Heap w)[x := (Heap w ! x)\<lparr>TaskPid := 0, TaskVPid := 0,
                         WaitTaskPid := 0, DeathTime := 0, ExitStatus := 0, OomKilled := False\<rparr>]\<rparr>) of
             None \<Rightarrow> None
           | Some w1 \<Rightarrow> Some (Save_stop_result env x, w1))
      else None)"

text \<open>
  \<^verbatim>\<open>
    for (auto &ct: Subtree()) {
        error = ct->StopOne(deadline);
        if (error)
            return error;
    }
  \<close>
\<close>

fun StopOne_each :: "stop_env \<Rightarrow> nat \<Rightarrow> cid list \<Rightarrow> world \<Rightarrow> (EError \<times> world) option" where
  "StopOne_each env deadline [] w = Some (Success, w)"
| "StopOne_each env deadline (ct # rest) w =
     (case StopOne env ct deadline w of
        None \<Rightarrow> None
      | Some (error, w1) \<Rightarrow>
          if error \<noteq> Success then Some (error, w1) else StopOne_each env deadline rest w1)"

text \<open>
  \<^verbatim>\<open>
    for (auto &ct: Subtree()) {
        auto cg = ct->GetCgroup(FreezerSubsystem);
        error = cg.KillAll(SIGKILL);
        if (error)
            return error;
        error = FreezerSubsystem.Thaw(cg, false);
        if (error)
            return error;
    }
  \<close>
\<close>

fun KillAll_Thaw_each :: "stop_env \<Rightarrow> cid list \<Rightarrow> EError" where
  "KillAll_Thaw_each env [] = Success"
| "KillAll_Thaw_each env (ct # rest) =
     (if KillAll_result env ct \<noteq> Success then KillAll_result env ct
      else if Thaw_result env ct \<noteq> Success then Thaw_result env ct
      else KillAll_Thaw_each env rest)"

text \<open>
  \<^verbatim>\<open>Stop\<close>. The deadline is a \<^verbatim>\<open>uint64_t\<close>. \<^verbatim>\<open>UpdateSoftLimit\<close> at the end writes to
  memory cgroups only and its error is only logged.
\<close>

definition Stop_subtree :: "stop_env \<Rightarrow> cid \<Rightarrow> nat \<Rightarrow> world \<Rightarrow> (EError \<times> world) option" where
  "Stop_subtree env x deadline w =
     (case Subtree (Heap w) x of
        None \<Rightarrow> None
      | Some subtree \<Rightarrow>
          (case StopOne_each env deadline subtree w of
             None \<Rightarrow> None
           | Some (error, w1) \<Rightarrow> if error \<noteq> Success then Some (error, w1) else Some (Success, w1)))"

definition Stop :: "stop_env \<Rightarrow> cid \<Rightarrow> nat \<Rightarrow> world \<Rightarrow> (EError \<times> world) option" where
  "Stop env x timeout w =
     (if x < length (Heap w) then
        (let deadline = (if timeout \<noteq> 0 then (now_ms env + timeout) mod 2 ^ 64 else 0) in
         if CGROUP_FREEZER \<notin> Controllers (Heap w ! x) then
           (if TaskPid (Heap w ! x) \<noteq> 0 then Some (NotSupported, w)
            else Stop_subtree env x deadline w)
         else if IsFrozen env x then
           (if IsParentFreezing env x then Some (InvalidState, w)
            else case Subtree (Heap w) x of
                   None \<Rightarrow> None
                 | Some subtree \<Rightarrow>
                     if KillAll_Thaw_each env subtree \<noteq> Success
                     then Some (KillAll_Thaw_each env subtree, w)
                     else Stop_subtree env x deadline w)
         else Stop_subtree env x deadline w)
      else None)"

text \<open>
  A well-formed tree: besides \<open>wf_heap\<close>, every entry of a \<^verbatim>\<open>Children\<close> list is a live
  object whose \<^verbatim>\<open>Parent\<close> is the owner of the list, as \<^verbatim>\<open>Register\<close> and \<^verbatim>\<open>Destroy\<close>
  keep it.
\<close>

definition tree_ok :: "heap \<Rightarrow> bool" where
  "tree_ok h = (wf_heap h \<and>
     (\<forall>x < length h. \<forall>c \<in> set (Children (h ! x)). c < length h \<and> Parent (h ! c) = Some x))"

text \<open>
  Concrete inputs: a kernel in which nothing is frozen and every call succeeds; the
  registry of the spec's scenario S2 after the exit, a Stopped container \<open>a\<close> with a Dead
  child \<open>a/b\<close>.
\<close>

definition kenv0 :: stop_env where
  "kenv0 = \<lparr>now_ms = 1000, IsFrozen = (\<lambda>ct. False), IsParentFreezing = (\<lambda>ct. False),
            KillAll_result = (\<lambda>ct. Success), Thaw_result = (\<lambda>ct. Success),
            KillTasks_result = (\<lambda>ct deadline. Success), Save_stop_result = (\<lambda>ct. Success)\<rparr>"

definition ct_b :: TContainer where
  "ct_b = ct_a\<lparr>Id := 3, Name := ''a/b'', Parent := Some 1, Level := 2, State := Dead,
               Command := ''sleep 1'', DeathTime := 500, ExitStatus := 0\<rparr>"

definition world_dead_child :: world where
  "world_dead_child =
     \<lparr>Heap = [ct_root, ct_a\<lparr>Children := [2]\<rparr>, ct_b],
      Containers = [(''/'', 0), (''a'', 1), (''a/b'', 2)], Notified = []\<rparr>"

subsection \<open>\<^verbatim>\<open>Subtree\<close> returns on a well-formed tree\<close>

lemma ancestor_trans_parent:
  "ancestor h c d \<Longrightarrow> c < length h \<Longrightarrow> Parent (h ! c) = Some x \<Longrightarrow> ancestor h x d"
proof (induction rule: ancestor.induct)
  case (parent d p)
  then show ?case by (auto intro: ancestor.intros)
next
  case (step d p a)
  then show ?case by (auto intro: ancestor.step)
qed

lemma in_subtree_child:
  assumes "c < length h" "Parent (h ! c) = Some x" "in_subtree h c d"
  shows "in_subtree h x d"
  using assms ancestor_trans_parent[of h c d x]
  by (auto simp: in_subtree_def intro: ancestor.parent)

lemma tree_ok_child:
  assumes ok: "tree_ok h" and x: "x < length h" and c: "c \<in> set (Children (h ! x))"
  shows "c < length h \<and> Parent (h ! c) = Some x \<and> Level (h ! x) < Level (h ! c)"
proof -
  have wf: "wf_heap h" using ok by (simp add: tree_ok_def)
  have "\<forall>x < length h. \<forall>c \<in> set (Children (h ! x)). c < length h \<and> Parent (h ! c) = Some x"
    using ok by (simp add: tree_ok_def)
  then have c': "c < length h" "Parent (h ! c) = Some x" using x c by blast+
  then show ?thesis using wf_heap_parent[OF wf c'] by simp
qed

lemma Subtree_loop_defined:
  assumes ok: "tree_ok h"
  shows "\<forall>t \<in> set todo. t < length h \<Longrightarrow>
     \<exists>xs. Subtree_loop h todo acc = Some xs \<and>
          set xs \<subseteq> set acc \<union> {c. \<exists>t \<in> set todo. in_subtree h t c}"
proof -
  define L where "L = sum_list (map Level h)"
  define f where "f = (\<lambda>c. L - Level (h ! c))"
  define R where "R = inv_image (mult less_than) (\<lambda>todo. mset (map f todo))"
  have wfR: "wf R" unfolding R_def by (rule wf_inv_image) (rule wf_mult, rule wf_less_than)
  have bound: "Level (h ! c) \<le> L" if "c < length h" for c
    unfolding L_def using elem_le_sum_list[of c "map Level h"] that by simp
  note child = tree_ok_child[OF ok]
  have "(\<forall>t \<in> set td. t < length h) \<longrightarrow>
     (\<forall>acc. \<exists>xs. Subtree_loop h td acc = Some xs \<and>
          set xs \<subseteq> set acc \<union> {c. \<exists>t \<in> set td. in_subtree h t c})" for td
    using wfR
  proof (induction td rule: wf_induct_rule)
    case (less todo)
    show ?case
    proof (cases todo)
      case Nil
      then show ?thesis by (subst Subtree_loop.simps) simp
    next
      case (Cons x rest)
      show ?thesis
      proof (intro impI allI)
        fix acc
        assume live: "\<forall>t \<in> set todo. t < length h"
        then have x: "x < length h" and rest: "\<forall>t \<in> set rest. t < length h" using Cons by auto
        let ?cs = "Children (h ! x)"
        have dec: "(rest @ ?cs, todo) \<in> R"
        proof -
          have "\<forall>k \<in> set_mset (mset (map f ?cs)). \<exists>j \<in> set_mset {#f x#}. (k, j) \<in> less_than"
          proof (intro ballI)
            fix k assume "k \<in> set_mset (mset (map f ?cs))"
            then obtain c where c: "c \<in> set ?cs" "k = f c" by auto
            have "Level (h ! x) < Level (h ! c)" "Level (h ! c) \<le> L"
              using child[OF x c(1)] bound by auto
            then have "f c < f x" unfolding f_def by linarith
            then show "\<exists>j \<in> set_mset {#f x#}. (k, j) \<in> less_than" using c(2) by simp
          qed
          then have "(mset (map f rest) + mset (map f ?cs), mset (map f rest) + {#f x#}) \<in> mult less_than"
            by (intro one_step_implies_mult) auto
          then show ?thesis unfolding R_def Cons by simp
        qed
        have live': "\<forall>t \<in> set (rest @ ?cs). t < length h" using rest child[OF x] by auto
        obtain xs where xs: "Subtree_loop h (rest @ ?cs) (rev ?cs @ acc) = Some xs"
            "set xs \<subseteq> set (rev ?cs @ acc) \<union> {c. \<exists>t \<in> set (rest @ ?cs). in_subtree h t c}"
          using less.IH[OF dec] live' by blast
        have sub: "in_subtree h x d" if "c \<in> set ?cs" "in_subtree h c d" for c d
          using in_subtree_child[of c h x d] child[OF x that(1)] that(2) by simp
        have cs_sub: "in_subtree h x c" if "c \<in> set ?cs" for c
          using sub[OF that, of c] by (simp add: in_subtree_def)
        have "Subtree_loop h todo acc = Some xs"
          using xs(1) x Cons by (subst Subtree_loop.simps) simp
        moreover have "set xs \<subseteq> set acc \<union> {c. \<exists>t \<in> set todo. in_subtree h t c}"
          using xs(2) sub cs_sub unfolding Cons by auto
        ultimately show "\<exists>xs. Subtree_loop h todo acc = Some xs \<and>
          set xs \<subseteq> set acc \<union> {c. \<exists>t \<in> set todo. in_subtree h t c}" by blast
      qed
    qed
  qed
  then show "\<forall>t \<in> set todo. t < length h \<Longrightarrow>
     \<exists>xs. Subtree_loop h todo acc = Some xs \<and>
          set xs \<subseteq> set acc \<union> {c. \<exists>t \<in> set todo. in_subtree h t c}" by blast
qed

lemma Subtree_defined:
  assumes "tree_ok h" "x < length h"
  shows "\<exists>xs. Subtree h x = Some xs \<and> set xs \<subseteq> {c. in_subtree h x c}"
proof -
  obtain xs where "Subtree_loop h [x] [x] = Some xs"
    "set xs \<subseteq> set [x] \<union> {c. \<exists>t \<in> set [x]. in_subtree h t c}"
    using Subtree_loop_defined[OF assms(1), of "[x]" "[x]"] assms(2) by auto
  then show ?thesis by (auto simp: Subtree_def in_subtree_def)
qed

lemma in_subtree_live:
  "in_subtree h x c \<Longrightarrow> x < length h \<Longrightarrow> c < length h"
  by (auto simp: in_subtree_def elim: ancestor.cases)

lemma StopOne_each_stopped:
  "\<forall>c \<in> set xs. c < length (Heap w) \<and> State (Heap w ! c) = Stopped \<Longrightarrow>
     StopOne_each env deadline xs w = Some (Success, w)"
  by (induction xs) (auto simp: StopOne_def)


text \<open>
  C7 (as stated, refuted). The container \<open>a\<close> is Stopped and its child \<open>a/b\<close> is Dead
  (a meta container reaped after its task's exit, as in the spec's scenario S2).
  \<^verbatim>\<open>Stop\<close> on \<open>a\<close> stops \<open>a/b\<close>, and when the \<^verbatim>\<open>Save\<close> of \<open>a/b\<close> fails it
  returns that error, not Success. And when the freezer cgroup of a Stopped container
  is frozen from above, \<^verbatim>\<open>Stop\<close> returns InvalidState.
\<close>

theorem Stop_on_Stopped_counterexample:
  "State (Heap world_dead_child ! 1) = Stopped \<and>
   Stop (kenv0\<lparr>Save_stop_result := (\<lambda>ct. NoSpace)\<rparr>) 1 5000 world_dead_child =
     Some (NoSpace,
           world_dead_child\<lparr>Heap := [ct_root, ct_a\<lparr>Children := [2]\<rparr>,
                                      ct_b\<lparr>State := Stopped, DeathTime := 0\<rparr>],
                            Notified := [2]\<rparr>) \<and>
   State (Heap world0 ! 1) = Stopped \<and>
   Stop (kenv0\<lparr>IsFrozen := (\<lambda>ct. True), IsParentFreezing := (\<lambda>ct. True)\<rparr>) 1 5000 world0 =
     Some (InvalidState, world0)"
  by (simp add: Stop_def Stop_subtree_def Subtree_def Subtree_loop.simps StopOne_def
      Terminate_def kenv0_def world_dead_child_def world0_def ct_b_def ct_a_def ct_root_def
      Let_def SetState_def NotifyWaiters_def IsRoot_def ROOT_CONTAINER_def)


text \<open>
  C7 (amended). On a container in state Stopped all of whose descendants are Stopped, that
  has the freezer controller or no task pid, and whose freezer cgroup is not frozen,
  \<^verbatim>\<open>Stop\<close> returns Success and changes nothing: every container's state and runtime
  fields, the registry and the notification log are as before.
\<close>

theorem Stop_stopped_subtree:
  assumes ok: "tree_ok (Heap w)" and x: "x < length (Heap w)"
    and stopped: "\<forall>c. in_subtree (Heap w) x c \<longrightarrow> State (Heap w ! c) = Stopped"
    and freezer: "CGROUP_FREEZER \<in> Controllers (Heap w ! x) \<or> TaskPid (Heap w ! x) = 0"
    and thawed: "\<not> IsFrozen env x"
  shows "Stop env x timeout w = Some (Success, w)"
proof -
  obtain xs where xs: "Subtree (Heap w) x = Some xs" "set xs \<subseteq> {c. in_subtree (Heap w) x c}"
    using Subtree_defined[OF ok x] by blast
  have "\<forall>c \<in> set xs. c < length (Heap w) \<and> State (Heap w ! c) = Stopped"
    using xs(2) stopped in_subtree_live[OF _ x] by blast
  then have "StopOne_each env deadline xs w = Some (Success, w)" for deadline
    by (rule StopOne_each_stopped)
  then have "Stop_subtree env x deadline w = Some (Success, w)" for deadline
    using xs(1) by (simp add: Stop_subtree_def)
  then show ?thesis
    using x freezer thawed by (auto simp: Stop_def Let_def)
qed

lemma tree_ok_world0: "tree_ok (Heap world0)"
  by (simp add: tree_ok_def wf_heap_def world0_def ct_root_def ct_a_def less_Suc_eq)

lemma subtree_a_world0: "in_subtree (Heap world0) 1 c \<longleftrightarrow> c = 1"
proof -
  have wf: "wf_heap (Heap world0)" using tree_ok_world0 by (simp add: tree_ok_def)
  have "\<not> ancestor (Heap world0) 1 c"
  proof
    assume a: "ancestor (Heap world0) 1 c"
    then have "c < length (Heap world0)" by (auto elim: ancestor.cases)
    moreover have "Level (Heap world0 ! 1) < Level (Heap world0 ! c)" using ancestor_wf[OF a wf] by simp
    ultimately show False by (auto simp: less_Suc_eq world0_def ct_root_def ct_a_def)
  qed
  then show ?thesis by (simp add: in_subtree_def)
qed

theorem Stop_stopped_subtree_witness:
  "tree_ok (Heap world0) \<and> 1 < length (Heap world0) \<and>
   (\<forall>c. in_subtree (Heap world0) 1 c = (c = 1)) \<and> State (Heap world0 ! 1) = Stopped \<and>
   CGROUP_FREEZER \<in> Controllers (Heap world0 ! 1) \<and> \<not> IsFrozen kenv0 1 \<and>
   Stop kenv0 1 5000 world0 = Some (Success, world0)"
proof -
  have x: "1 < length (Heap world0)" by (simp add: world0_def)
  have st: "State (Heap world0 ! 1) = Stopped" by (simp add: world0_def ct_a_def ct_root_def)
  have stopped: "\<forall>c. in_subtree (Heap world0) 1 c \<longrightarrow> State (Heap world0 ! c) = Stopped"
    using subtree_a_world0 st by simp
  have fr: "CGROUP_FREEZER \<in> Controllers (Heap world0 ! 1)" by (simp add: world0_def ct_a_def ct_root_def)
  have th: "\<not> IsFrozen kenv0 1" by (simp add: kenv0_def)
  show ?thesis
    using Stop_stopped_subtree[OF tree_ok_world0 x stopped disjI1[OF fr] th, of 5000]
      tree_ok_world0 x subtree_a_world0 st fr th
    by simp
qed

section \<open>Setting a property: \<^verbatim>\<open>TContainer::SetProperty\<close>\<close>

text \<open>
  The configuration of a container as the property code sees it: the value of every
  property, in its textual form, and the two bitmaps \<^verbatim>\<open>PropSet\<close> and \<^verbatim>\<open>PropDirty\<close>,
  indexed by the \<^verbatim>\<open>EProperty\<close> key of a property (here its name in the enumeration).
\<close>

type_synonym EProperty = string

record config =
  Values :: "string \<Rightarrow> string"
  PropSet :: "EProperty set"
  PropDirty :: "EProperty set"

text \<open>An entry of \<^verbatim>\<open>ContainerProperties\<close>: the key of the property and whether it is supported.\<close>

record TProperty =
  Prop :: EProperty
  IsSupported :: bool

text \<open>
  What \<^verbatim>\<open>SetProperty\<close> uses from outside container.cpp: the catalogue
  \<^verbatim>\<open>ContainerProperties\<close>; the string helpers \<^verbatim>\<open>SplitString\<close> and \<^verbatim>\<open>StringTrim\<close>, through
  the result of \<^verbatim>\<open>ParsePropertyName\<close> (name and index) and of \<^verbatim>\<open>StringTrim\<close>; which
  values a property's \<^verbatim>\<open>Set\<close> accepts; the value that \<^verbatim>\<open>SetIndexed\<close> makes of the
  old one (or its refusal); the result of \<^verbatim>\<open>ApplyDynamicProperties\<close> and the dirty bits
  it has tested and cleared on the way; and the result of \<^verbatim>\<open>Save\<close>.
\<close>

record setprop_env =
  ContainerProperties :: "string \<rightharpoonup> TProperty"
  ParsePropertyName :: "string \<Rightarrow> string \<times> string"
  StringTrim :: "string \<Rightarrow> string"
  accepts :: "string \<Rightarrow> string \<Rightarrow> bool"
  indexed_value :: "string \<Rightarrow> string \<Rightarrow> string \<Rightarrow> string \<Rightarrow> string option"
  Apply_result :: EError
  Apply_cleared :: "EProperty set"
  Save_prop_result :: EError

text \<open>
  Modelled from the spec: the classes of the properties (property.cpp) and the bitmap
  helpers \<^verbatim>\<open>SetProp\<close> and \<^verbatim>\<open>TestClearPropDirty\<close> (container.hpp) are not among the sources
  at hand. By the spec, \<^verbatim>\<open>PropSet\<close> marks the properties that were explicitly set and
  \<^verbatim>\<open>PropDirty\<close> those that need rewriting to the kernel: \<^verbatim>\<open>Get\<close> returns the value
  of the property; \<^verbatim>\<open>Set\<close> stores a value it accepts and marks the property set and
  dirty, and refuses any other value with InvalidValue, changing nothing;
  \<^verbatim>\<open>SetIndexed\<close> does the same with the value it makes of the old one;
  \<^verbatim>\<open>TestClearPropDirty\<close> clears the dirty bit.
\<close>

definition prop_Get :: "string \<Rightarrow> config \<Rightarrow> EError \<times> string" where
  "prop_Get property c = (Success, Values c property)"

definition SetProp :: "EProperty \<Rightarrow> config \<Rightarrow> config" where
  "SetProp p c = c\<lparr>PropSet := insert p (PropSet c), PropDirty := insert p (PropDirty c)\<rparr>"

definition prop_Set :: "setprop_env \<Rightarrow> string \<Rightarrow> TProperty \<Rightarrow> string \<Rightarrow> config \<Rightarrow> EError \<times> config" where
  "prop_Set env property P v c =
     (if accepts env property v
      then (Success, SetProp (Prop P) (c\<lparr>Values := (Values c)(property := v)\<rparr>))
      else (InvalidValue, c))"

definition prop_SetIndexed ::
    "setprop_env \<Rightarrow> string \<Rightarrow> TProperty \<Rightarrow> string \<Rightarrow> string \<Rightarrow> config \<Rightarrow> EError \<times> config" where
  "prop_SetIndexed env property P idx v c =
     (case indexed_value env property (Values c property) idx v of
        None \<Rightarrow> (InvalidValue, c)
      | Some v' \<Rightarrow> (Success, SetProp (Prop P) (c\<lparr>Values := (Values c)(property := v')\<rparr>)))"

definition TestClearPropDirty :: "EProperty \<Rightarrow> config \<Rightarrow> bool \<times> config" where
  "TestClearPropDirty p c = (p \<in> PropDirty c, c\<lparr>PropDirty := PropDirty c - {p}\<rparr>)"

text \<open>
  \<^verbatim>\<open>ApplyDynamicProperties\<close> (container.cpp) tests and clears dirty bits and writes the
  values to the cgroups; of the configuration it changes the dirty bits only.
\<close>

definition ApplyDynamicProperties :: "setprop_env \<Rightarrow> config \<Rightarrow> EError \<times> config" where
  "ApplyDynamicProperties env c = (Apply_result env, c\<lparr>PropDirty := PropDirty c - Apply_cleared env\<rparr>)"

text \<open>
  \<^verbatim>\<open>SetProperty\<close> on the container \<open>X\<close> with configuration \<open>c\<close>:
  \<^verbatim>\<open>
    std::string oldValue;
    error = prop->Get(oldValue);
    if (!error) {
        if (idx.length())
            error = prop->SetIndexed(idx, value);
        else
            error = prop->Set(value);
    }
    if (!error && (State == EContainerState::Running ||
                   State == EContainerState::Meta ||
                   State == EContainerState::Paused)) {
        error = ApplyDynamicProperties();
        if (error) {
            (void)prop->Set(oldValue);
            (void)TestClearPropDirty(prop->Prop);
        }
    }
    CurrentContainer = nullptr;
    if (!error)
        error = Save();
    return error;
  \<close>
\<close>

definition SetProperty ::
    "setprop_env \<Rightarrow> TContainer \<Rightarrow> config \<Rightarrow> string \<Rightarrow> string \<Rightarrow> EError \<times> config" where
  "SetProperty env X c origProperty origValue =
     (if IsRoot X then (Permission, c)
      else
        (let property = fst (ParsePropertyName env origProperty);
             idx = snd (ParsePropertyName env origProperty);
             v = StringTrim env origValue in
         case ContainerProperties env property of
           None \<Rightarrow> (Unknown, c)
         | Some P \<Rightarrow>
             if \<not> IsSupported P then (NotSupported, c)
             else
               (case prop_Get property c of (error0, oldValue) \<Rightarrow>
                case (if error0 = Success
                      then (if length idx \<noteq> 0 then prop_SetIndexed env property P idx v c
                            else prop_Set env property P v c)
                      else (error0, c)) of (error1, c1) \<Rightarrow>
                if error1 = Success \<and>
                   (State X = Running \<or> State X = Meta \<or> State X = Paused)
                then
                  (case ApplyDynamicProperties env c1 of (error2, c2) \<Rightarrow>
                   if error2 \<noteq> Success
                   then (error2, snd (TestClearPropDirty (Prop P)
                                        (snd (prop_Set env property P oldValue c2))))
                   else (Save_prop_result env, c2))
                else if error1 = Success then (Save_prop_result env, c1)
                else (error1, c1))))"

text \<open>
  Concrete input: the Running container \<open>r\<close> with memory limit 0, no property set or
  dirty, and a kernel that refuses the new limit.
\<close>

definition penv0 :: setprop_env where
  "penv0 = \<lparr>ContainerProperties = [''memory_limit'' \<mapsto> \<lparr>Prop = ''MEM_LIMIT'', IsSupported = True\<rparr>],
            ParsePropertyName = (\<lambda>name. (name, [])), StringTrim = (\<lambda>v. v),
            accepts = (\<lambda>property v. True), indexed_value = (\<lambda>property old idx v. None),
            Apply_result = InvalidValue, Apply_cleared = {''MEM_LIMIT''},
            Save_prop_result = Success\<rparr>"

definition config0 :: config where
  "config0 = \<lparr>Values = (\<lambda>property. ''0''), PropSet = {}, PropDirty = {}\<rparr>"

text \<open>
  The value that \<^verbatim>\<open>Set\<close> (no index) or \<^verbatim>\<open>SetIndexed\<close> stores for a request, \<open>None\<close>
  when the request is refused.
\<close>

definition new_value :: "setprop_env \<Rightarrow> string \<Rightarrow> string \<Rightarrow> string \<Rightarrow> config \<Rightarrow> string option" where
  "new_value env property idx v c =
     (if length idx \<noteq> 0 then indexed_value env property (Values c property) idx v
      else if accepts env property v then Some v else None)"

text \<open>
  C10 (as stated, refuted). The Running container \<open>r\<close> has memory limit 0 and no
  property marked as set. The new limit 1024 is stored, \<^verbatim>\<open>ApplyDynamicProperties\<close>
  fails, and \<^verbatim>\<open>SetProperty\<close> returns the error: the limit is 0 again, but the
  configuration is not the one before the call, since the property is now marked as set
  in \<^verbatim>\<open>PropSet\<close>.
\<close>

theorem SetProperty_configuration_changed_counterexample:
  "State ct_r = Running \<and>
   fst (SetProperty penv0 ct_r config0 ''memory_limit'' ''1024'') = InvalidValue \<and>
   Values (snd (SetProperty penv0 ct_r config0 ''memory_limit'' ''1024'')) ''memory_limit'' = ''0'' \<and>
   PropSet config0 = {} \<and>
   PropSet (snd (SetProperty penv0 ct_r config0 ''memory_limit'' ''1024'')) = {''MEM_LIMIT''} \<and>
   snd (SetProperty penv0 ct_r config0 ''memory_limit'' ''1024'') \<noteq> config0"
proof -
  have r: "SetProperty penv0 ct_r config0 ''memory_limit'' ''1024'' =
      (InvalidValue, \<lparr>Values = (\<lambda>property. ''0''), PropSet = {''MEM_LIMIT''}, PropDirty = {}\<rparr>)"
    by (simp add: SetProperty_def Let_def prop_Get_def prop_Set_def SetProp_def
        TestClearPropDirty_def ApplyDynamicProperties_def penv0_def config0_def IsRoot_def
        ROOT_CONTAINER_def ct_r_def ct_a_def ct_root_def fun_eq_iff)
  have st: "State ct_r = Running" by (simp add: ct_r_def ct_a_def ct_root_def)
  show ?thesis unfolding r using st by (simp add: config0_def)
qed

text \<open>
  C10 (amended). For a container that is not the root and is Running, Meta or Paused:
  when the new value of a supported property has been stored (by \<^verbatim>\<open>Set\<close>, or by
  \<^verbatim>\<open>SetIndexed\<close> for an indexed name) and \<^verbatim>\<open>ApplyDynamicProperties\<close> then fails,
  \<^verbatim>\<open>SetProperty\<close> returns that error. The rollback is the call \<^verbatim>\<open>prop->Set(oldValue)\<close>,
  whose result the code ignores: when \<^verbatim>\<open>Set\<close> accepts the old value, every property has
  the value it had before the call; when it refuses it, the new value stays. In both
  cases the property is marked as set in \<^verbatim>\<open>PropSet\<close>, whether or not it was before, and
  the dirty bits are those before the call less the ones \<^verbatim>\<open>ApplyDynamicProperties\<close> had
  tested and cleared and less the bit of the property.
\<close>

theorem SetProperty_rollback:
  assumes nonroot: "\<not> IsRoot X"
    and live: "State X = Running \<or> State X = Meta \<or> State X = Paused"
    and parsed: "ParsePropertyName env origProperty = (property, idx)"
    and known: "ContainerProperties env property = Some P"
    and supported: "IsSupported P"
    and stored: "new_value env property idx (StringTrim env origValue) c = Some nv"
    and apply_fails: "Apply_result env \<noteq> Success"
  shows "fst (SetProperty env X c origProperty origValue) = Apply_result env \<and>
         Values (snd (SetProperty env X c origProperty origValue)) =
           (if accepts env property (Values c property) then Values c
            else (Values c)(property := nv)) \<and>
         PropSet (snd (SetProperty env X c origProperty origValue)) = insert (Prop P) (PropSet c) \<and>
         PropDirty (snd (SetProperty env X c origProperty origValue)) =
           PropDirty c - Apply_cleared env - {Prop P}"
  using assms
  by (auto simp: SetProperty_def Let_def prop_Get_def prop_Set_def prop_SetIndexed_def SetProp_def
      TestClearPropDirty_def ApplyDynamicProperties_def new_value_def
      split: option.splits if_splits)

theorem SetProperty_rollback_witness:
  "\<not> IsRoot ct_r \<and> State ct_r = Running \<and>
   ParsePropertyName penv0 ''memory_limit'' = (''memory_limit'', []) \<and>
   ContainerProperties penv0 ''memory_limit'' = Some \<lparr>Prop = ''MEM_LIMIT'', IsSupported = True\<rparr> \<and>
   new_value penv0 ''memory_limit'' [] (StringTrim penv0 ''1024'') config0 = Some ''1024'' \<and>
   Apply_result penv0 \<noteq> Success \<and>
   accepts penv0 ''memory_limit'' (Values config0 ''memory_limit'') \<and>
   fst (SetProperty penv0 ct_r config0 ''memory_limit'' ''1024'') = InvalidValue \<and>
   Values (snd (SetProperty penv0 ct_r config0 ''memory_limit'' ''1024'')) = Values config0 \<and>
   PropSet (snd (SetProperty penv0 ct_r config0 ''memory_limit'' ''1024'')) = {''MEM_LIMIT''} \<and>
   PropDirty (snd (SetProperty penv0 ct_r config0 ''memory_limit'' ''1024'')) = {}"
proof -
  have a: "\<not> IsRoot ct_r" "State ct_r = Running \<or> State ct_r = Meta \<or> State ct_r = Paused"
    by (simp_all add: IsRoot_def ROOT_CONTAINER_def ct_r_def ct_a_def ct_root_def)
  have b: "ParsePropertyName penv0 ''memory_limit'' = (''memory_limit'', [])"
      "ContainerProperties penv0 ''memory_limit'' = Some \<lparr>Prop = ''MEM_LIMIT'', IsSupported = True\<rparr>"
      "IsSupported \<lparr>Prop = ''MEM_LIMIT'', IsSupported = True\<rparr>"
      "new_value penv0 ''memory_limit'' [] (StringTrim penv0 ''1024'') config0 = Some ''1024''"
      "Apply_result penv0 \<noteq> Success"
    by (simp_all add: penv0_def new_value_def)
  have v: "accepts penv0 ''memory_limit'' (Values config0 ''memory_limit'')"
      "Apply_result penv0 = InvalidValue" "PropSet config0 = {}" "PropDirty config0 = {}"
    by (simp_all add: config0_def penv0_def)
  have st: "State ct_r = Running" by (simp add: ct_r_def ct_a_def ct_root_def)
  show ?thesis
    using SetProperty_rollback[OF a b] a(1) st b(1,2,4,5) v
    by simp
qed

section \<open>Client identification: \<^verbatim>\<open>TClient::IdentifyClient\<close>\<close>

text \<open>The fields of \<^verbatim>\<open>TClient\<close> that identification reads or writes.\<close>

record TClient =
  Pid :: int
  TaskCred :: TCred
  Cred :: TCred
  Comm :: string
  ClientContainer :: "cid option"
  AccessLevel :: EAccessLevel

text \<open>
  What identification reads from outside the process: the peer credentials that
  \<^verbatim>\<open>getsockopt(SO_PEERCRED)\<close> reports (\<open>None\<close> when the call fails), the freezer cgroup
  of a pid, the daemon's cgroup prefix, the peer's \<^verbatim>\<open>/proc/<pid>/comm\<close>, the group list
  that \<^verbatim>\<open>LoadGroups\<close> leaves in \<^verbatim>\<open>Cred.Groups\<close>, and the gid of the porto group.
\<close>

record ident_env =
  peercred :: "(int \<times> nat \<times> nat) option"
  TaskCgroup :: "int \<Rightarrow> EError + string"
  PORTO_CGROUP_PREFIX :: string
  proc_comm :: string
  proc_groups :: "nat list"
  PortoGroup :: nat

definition FindTaskContainer :: "ident_env \<Rightarrow> (string \<times> cid) list \<Rightarrow> int \<Rightarrow> EError + cid" where
  "FindTaskContainer env containers pid =
     (case TaskCgroup env pid of
        Inl e \<Rightarrow> Inl e
      | Inr cgName \<Rightarrow>
          (let prefix = PORTO_CGROUP_PREFIX env @ ''/'';
               name = map (\<lambda>c. if c = CHR ''%'' then CHR ''/'' else c) cgName
           in if \<not> StringStartsWith name prefix then Find_error containers ROOT_CONTAINER
              else Find_error containers (drop (length prefix) name)))"

text \<open>
  \<^verbatim>\<open>
    AccessLevel = ct->AccessLevel;
    for (auto p = ct->Parent; p; p = p->Parent)
        AccessLevel = std::min(AccessLevel, p->AccessLevel);
  \<close>
\<close>

partial_function (option) IdentifyClient_level ::
    "heap \<Rightarrow> cid option \<Rightarrow> EAccessLevel \<Rightarrow> EAccessLevel option" where
  "IdentifyClient_level h p lvl =
     (case p of None \<Rightarrow> Some lvl
      | Some a \<Rightarrow>
          if a < length h
          then IdentifyClient_level h (Parent (h ! a)) (level_min lvl (TContainer.AccessLevel (h ! a)))
          else None)"

declare IdentifyClient_level.simps [code]

text \<open>
  The test "request from the same pid and container is still here", under which a
  non-initial identification keeps the recorded identity.
\<close>

definition keeps_identity :: "heap \<Rightarrow> bool \<Rightarrow> TClient \<Rightarrow> int \<times> nat \<times> nat \<Rightarrow> bool" where
  "keeps_identity h initial cl cr =
     (case cr of (cr_pid, cr_uid, cr_gid) \<Rightarrow>
        \<not> initial \<and> Pid cl = cr_pid \<and> Uid (TaskCred cl) = cr_uid \<and> Gid (TaskCred cl) = cr_gid \<and>
        (case ClientContainer cl of None \<Rightarrow> False
         | Some cc \<Rightarrow> State (h ! cc) = Running \<or> State (h ! cc) = Meta))"

text \<open>
  \<^verbatim>\<open>TClient::IdentifyClient\<close>. The result is the returned error and the client object
  as the call leaves it (the fields assigned before an error return stay assigned).
  \<^verbatim>\<open>ClientContainer\<close> is a shared pointer, so it points into the heap.
\<close>

definition IdentifyClient ::
    "ident_env \<Rightarrow> heap \<Rightarrow> (string \<times> cid) list \<Rightarrow> bool \<Rightarrow> TClient \<Rightarrow> (EError \<times> TClient) option" where
  "IdentifyClient env h containers initial cl =
     (if (case ClientContainer cl of None \<Rightarrow> False | Some cc \<Rightarrow> length h \<le> cc) then None
      else case peercred env of
        None \<Rightarrow> Some (Unknown, cl)
      | Some cr \<Rightarrow>
          if keeps_identity h initial cl cr then Some (Success, cl)
          else
            (let cl1 = cl\<lparr>TaskCred := (TaskCred cl)\<lparr>Uid := fst (snd cr), Gid := snd (snd cr)\<rparr>,
                          Pid := fst cr\<rparr>
             in case FindTaskContainer env containers (Pid cl1) of
                  Inl e \<Rightarrow> Some (e, cl1)
                | Inr ct \<Rightarrow>
                    if ct < length h then
                      (case IdentifyClient_level h (Parent (h ! ct)) (TContainer.AccessLevel (h ! ct)) of
                         None \<Rightarrow> None
                       | Some lvl \<Rightarrow>
                           (let cl2 = cl1\<lparr>AccessLevel := lvl\<rparr> in
                            if AccessLevel cl2 = AL_None then Some (Permission, cl2)
                            else if State (h ! ct) \<noteq> Running \<and> State (h ! ct) \<noteq> Meta
                            then Some (Permission, cl2)
                            else
                              (let cl3 = cl2\<lparr>ClientContainer := Some ct, Comm := proc_comm env\<rparr>;
                                   cl4 = (if IsRoot (h ! ct)
                                          then cl3\<lparr>Cred := (Cred cl3)\<lparr>Uid := fst (snd cr),
                                                     Gid := snd (snd cr), Groups := proc_groups env\<rparr>\<rparr>
                                          else cl3\<lparr>Cred := OwnerCred (h ! ct)\<rparr>);
                                   cl5 = (if IsRootUser (Cred cl4)
                                          then (if AccessLevel cl4 = Normal
                                                then cl4\<lparr>AccessLevel := SuperUser\<rparr> else cl4)
                                          else if \<not> IsMemberOf (Cred cl4) (PortoGroup env)
                                          then (if level_rank (AccessLevel cl4) \<ge> level_rank ReadOnly
                                                then cl4\<lparr>AccessLevel := ReadOnly\<rparr> else cl4)
                                          else cl4)
                               in Some (Success, cl5))))
                    else None))"

text \<open>
  \<open>is_min_level h x m\<close>: \<open>m\<close> is the minimum of the AccessLevel of \<open>x\<close> and of
  every ancestor of \<open>x\<close>.
\<close>

definition is_min_level :: "heap \<Rightarrow> cid \<Rightarrow> EAccessLevel \<Rightarrow> bool" where
  "is_min_level h x m =
     ((\<exists>a. in_subtree h a x \<and> TContainer.AccessLevel (h ! a) = m) \<and>
      (\<forall>a. in_subtree h a x \<longrightarrow> level_rank m \<le> level_rank (TContainer.AccessLevel (h ! a))))"

text \<open>
  Concrete inputs: a root peer (uid 0) whose task is in the root container, and a peer
  with uid 1000 whose task is in the container \<open>a\<close>.
\<close>

definition env0 :: ident_env where
  "env0 = \<lparr>peercred = Some (100, 0, 0), TaskCgroup = (\<lambda>pid. Inr ''/''),
     PORTO_CGROUP_PREFIX = ''/porto'', proc_comm = ''portoctl'', proc_groups = [], PortoGroup = 1333\<rparr>"

definition client0 :: TClient where
  "client0 = \<lparr>Pid = 0, TaskCred = \<lparr>Uid = 0, Gid = 0, Groups = []\<rparr>, Cred = \<lparr>Uid = 0, Gid = 0, Groups = []\<rparr>,
     Comm = [], ClientContainer = None, AccessLevel = AL_None\<rparr>"


definition env_a :: ident_env where
  "env_a = env0\<lparr>peercred := Some (200, 1000, 1000), TaskCgroup := (\<lambda>pid. Inr ''/porto/a'')\<rparr>"


lemma IdentifyClient_level_wf:
  assumes "wf_heap h"
  shows "(\<forall>a. p = Some a \<longrightarrow> a < length h) \<Longrightarrow>
     \<exists>m. IdentifyClient_level h p lvl = Some m \<and>
       (m = lvl \<or> (\<exists>a \<in> reach h p. TContainer.AccessLevel (h ! a) = m)) \<and>
       level_rank m \<le> level_rank lvl \<and>
       (\<forall>a \<in> reach h p. level_rank m \<le> level_rank (TContainer.AccessLevel (h ! a)))"
proof (induction "case p of None \<Rightarrow> 0 | Some a \<Rightarrow> Suc (Level (h ! a))" arbitrary: p lvl rule: less_induct)
  case less
  show ?case
  proof (cases p)
    case None
    then show ?thesis by (subst IdentifyClient_level.simps) (simp add: reach_def)
  next
    case (Some a)
    with less.prems have a: "a < length h" by simp
    let ?l = "level_min lvl (TContainer.AccessLevel (h ! a))"
    have nxt: "\<forall>q. Parent (h ! a) = Some q \<longrightarrow> q < length h \<and> Level (h ! q) < Level (h ! a)"
      using assms a by (auto simp: wf_heap_def split: option.splits)
    have "\<exists>m. IdentifyClient_level h (Parent (h ! a)) ?l = Some m \<and>
       (m = ?l \<or> (\<exists>b \<in> reach h (Parent (h ! a)). TContainer.AccessLevel (h ! b) = m)) \<and>
       level_rank m \<le> level_rank ?l \<and>
       (\<forall>b \<in> reach h (Parent (h ! a)). level_rank m \<le> level_rank (TContainer.AccessLevel (h ! b)))"
      by (rule less.hyps) (use nxt Some in \<open>auto split: option.splits\<close>)
    then obtain m where m: "IdentifyClient_level h (Parent (h ! a)) ?l = Some m"
       "m = ?l \<or> (\<exists>b \<in> reach h (Parent (h ! a)). TContainer.AccessLevel (h ! b) = m)"
       "level_rank m \<le> level_rank ?l"
       "\<forall>b \<in> reach h (Parent (h ! a)). level_rank m \<le> level_rank (TContainer.AccessLevel (h ! b))"
      by blast
    have r: "reach h p = insert a (reach h (Parent (h ! a)))"
      using Some a by (simp add: reach_Some[of h a])
    have l1: "level_rank ?l \<le> level_rank lvl" "level_rank ?l \<le> level_rank (TContainer.AccessLevel (h ! a))"
      by (auto simp: level_min_def)
    have l2: "?l = lvl \<or> ?l = TContainer.AccessLevel (h ! a)" by (auto simp: level_min_def)
    have "IdentifyClient_level h p lvl = Some m"
      using Some a m(1) by (subst IdentifyClient_level.simps) simp
    moreover have "m = lvl \<or> (\<exists>b \<in> reach h p. TContainer.AccessLevel (h ! b) = m)"
      using m(2) l2 unfolding r by auto
    moreover have "level_rank m \<le> level_rank lvl" using m(3) l1 by simp
    moreover have "\<forall>b \<in> reach h p. level_rank m \<le> level_rank (TContainer.AccessLevel (h ! b))"
      using m(3,4) l1 unfolding r by auto
    ultimately show ?thesis by blast
  qed
qed

lemma IdentifyClient_level_min:
  assumes "wf_heap h" "x < length h"
  shows "\<exists>m. IdentifyClient_level h (Parent (h ! x)) (TContainer.AccessLevel (h ! x)) = Some m \<and>
             is_min_level h x m"
proof -
  have pp: "\<forall>a. Parent (h ! x) = Some a \<longrightarrow> a < length h"
    using assms by (auto simp: wf_heap_def split: option.splits)
  obtain m where m: "IdentifyClient_level h (Parent (h ! x)) (TContainer.AccessLevel (h ! x)) = Some m"
     "m = TContainer.AccessLevel (h ! x) \<or> (\<exists>a \<in> reach h (Parent (h ! x)). TContainer.AccessLevel (h ! a) = m)"
     "level_rank m \<le> level_rank (TContainer.AccessLevel (h ! x))"
     "\<forall>a \<in> reach h (Parent (h ! x)). level_rank m \<le> level_rank (TContainer.AccessLevel (h ! a))"
    using IdentifyClient_level_wf[OF assms(1) pp] by blast
  have sub: "\<And>a. in_subtree h a x \<longleftrightarrow> a = x \<or> a \<in> reach h (Parent (h ! x))"
    using ancestor_iff[of h _ x] assms(2) by (auto simp: in_subtree_def)
  have "is_min_level h x m"
    unfolding is_min_level_def sub using m(2,3,4) by auto
  then show ?thesis using m(1) by blast
qed


lemma is_min_level_root: "is_min_level [ct_root, ct_a] 0 Normal"
proof -
  have "in_subtree [ct_root, ct_a] a 0 \<longleftrightarrow> a = 0" for a
    by (auto simp: in_subtree_def ancestor_iff reach_def ct_root_def)
  then show ?thesis by (simp add: is_min_level_def ct_root_def)
qed


text \<open>
  C9 (as stated, refuted). A root peer in the root container, whose AccessLevel is Normal
  and which has no ancestor, is identified successfully with AccessLevel SuperUser, not
  with the minimum Normal.
\<close>

theorem IdentifyClient_not_minimum_counterexample:
  "IdentifyClient env0 [ct_root, ct_a] [(''/'', 0), (''a'', 1)] True client0 =
     Some (Success, \<lparr>Pid = 100, TaskCred = \<lparr>Uid = 0, Gid = 0, Groups = []\<rparr>,
                     Cred = \<lparr>Uid = 0, Gid = 0, Groups = []\<rparr>, Comm = ''portoctl'',
                     ClientContainer = Some 0, AccessLevel = SuperUser\<rparr>) \<and>
   is_min_level [ct_root, ct_a] 0 Normal \<and> SuperUser \<noteq> Normal"
proof -
  have "IdentifyClient env0 [ct_root, ct_a] [(''/'', 0), (''a'', 1)] True client0 =
     Some (Success, \<lparr>Pid = 100, TaskCred = \<lparr>Uid = 0, Gid = 0, Groups = []\<rparr>,
                     Cred = \<lparr>Uid = 0, Gid = 0, Groups = []\<rparr>, Comm = ''portoctl'',
                     ClientContainer = Some 0, AccessLevel = SuperUser\<rparr>)"
    by (simp add: IdentifyClient_def keeps_identity_def FindTaskContainer_def Find_error_def
        Find_def StringStartsWith_def IdentifyClient_level.simps env0_def client0_def
        ct_root_def ct_a_def IsRoot_def IsRootUser_def IsMemberOf_def ROOT_CONTAINER_def Let_def)
  then show ?thesis using is_min_level_root by simp
qed


lemma FindTaskContainer_live:
  assumes "list_all (\<lambda>(name, c). c < length h) containers"
    and "FindTaskContainer env containers pid = Inr x"
  shows "x < length h"
proof -
  have "Find_error containers name = Inr x \<Longrightarrow> x < length h" for name
  proof -
    assume "Find_error containers name = Inr x"
    then have "map_of containers name = Some x"
      by (simp add: Find_error_def Find_def split: option.splits)
    then have "(name, x) \<in> set containers" by (rule map_of_SomeD)
    with assms(1) show "x < length h" by (auto simp: list_all_iff)
  qed
  with assms(2) show ?thesis
    by (auto simp: FindTaskContainer_def Let_def split: sum.splits if_splits)
qed

text \<open>
  The kept identity need not carry an adjusted level. A peer with uid 1000, outside the
  porto group, in the container \<open>a\<close> owned by uid 1000: identified while \<open>a\<close> is
  Running it gets ReadOnly; a request while \<open>a\<close> is Paused fails with Permission and
  leaves the unadjusted minimum Normal in the client; after \<open>a\<close> is Running again the
  recorded identity is kept and the request succeeds with AccessLevel Normal.
\<close>

definition ct_a_user :: TContainer where
  "ct_a_user = ct_a\<lparr>State := Running, OwnerCred := \<lparr>Uid = 1000, Gid = 1000, Groups = []\<rparr>\<rparr>"

definition client_a :: "EAccessLevel \<Rightarrow> TClient" where
  "client_a lvl = \<lparr>Pid = 200, TaskCred = \<lparr>Uid = 1000, Gid = 1000, Groups = []\<rparr>,
                   Cred = \<lparr>Uid = 1000, Gid = 1000, Groups = []\<rparr>, Comm = ''portoctl'',
                   ClientContainer = Some 1, AccessLevel = lvl\<rparr>"

lemma IdentifyClient_kept_identity_example:
  "IdentifyClient env_a [ct_root, ct_a_user] [(''/'', 0), (''a'', 1)] True client0 =
     Some (Success, client_a ReadOnly) \<and>
   IdentifyClient env_a [ct_root, ct_a_user\<lparr>State := Paused\<rparr>] [(''/'', 0), (''a'', 1)] False
       (client_a ReadOnly) = Some (Permission, client_a Normal) \<and>
   IdentifyClient env_a [ct_root, ct_a_user] [(''/'', 0), (''a'', 1)] False (client_a Normal) =
     Some (Success, client_a Normal)"
  by (simp add: IdentifyClient_def keeps_identity_def FindTaskContainer_def Find_error_def
      Find_def StringStartsWith_def IdentifyClient_level.simps env_a_def env0_def client0_def
      client_a_def ct_a_user_def ct_root_def ct_a_def level_min_def IsRoot_def IsRootUser_def
      IsMemberOf_def ROOT_CONTAINER_def Let_def)

text \<open>
  C9 (amended). On a well-formed heap \<^verbatim>\<open>IdentifyClient\<close> always returns. When
  \<^verbatim>\<open>getsockopt\<close> fails it returns Unknown and leaves the client as it is. When the
  identification is not the initial one and the peer's pid, uid and gid are the
  recorded ones and the recorded container is Running or Meta, it returns Success and
  leaves the client as it is: the AccessLevel stays the recorded one, whatever it is.
  Otherwise the peer is identified anew: when its task's container is not found the
  error of the search is returned and the AccessLevel is not touched; when the container
  \<open>x\<close> is found, then with \<open>m\<close> the minimum of the AccessLevel of \<open>x\<close> and of every
  ancestor of \<open>x\<close>: if \<open>m\<close> is None the call fails with Permission (and the client is
  left with AccessLevel None); it succeeds exactly when \<open>m\<close> is not None and \<open>x\<close> is
  Running or Meta, and otherwise fails with Permission, the client left with AccessLevel
  \<open>m\<close>; on success the client's AccessLevel is \<open>m\<close>, except that a root credential
  with \<open>m = Normal\<close> gets SuperUser and a non-root credential outside the porto group
  gets ReadOnly.
\<close>

theorem IdentifyClient_access_level:
  assumes wf: "wf_heap h"
    and cc: "\<forall>c. ClientContainer cl = Some c \<longrightarrow> c < length h"
    and reg: "list_all (\<lambda>(name, c). c < length h) containers"
  shows "\<exists>r cl'. IdentifyClient env h containers initial cl = Some (r, cl') \<and>
     (peercred env = None \<longrightarrow> r = Unknown \<and> cl' = cl) \<and>
     (\<forall>cr. peercred env = Some cr \<longrightarrow>
        (keeps_identity h initial cl cr \<longrightarrow> r = Success \<and> cl' = cl) \<and>
        (\<not> keeps_identity h initial cl cr \<longrightarrow>
           (\<forall>e. FindTaskContainer env containers (fst cr) = Inl e \<longrightarrow>
                  r = e \<and> AccessLevel cl' = AccessLevel cl) \<and>
           (\<forall>x. FindTaskContainer env containers (fst cr) = Inr x \<longrightarrow>
              (\<exists>m. is_min_level h x m \<and>
                 (m = AL_None \<longrightarrow> r = Permission \<and> AccessLevel cl' = AL_None) \<and>
                 (r = Success \<longleftrightarrow> m \<noteq> AL_None \<and> (State (h ! x) = Running \<or> State (h ! x) = Meta)) \<and>
                 (r \<noteq> Success \<longrightarrow> r = Permission \<and> AccessLevel cl' = m) \<and>
                 (r = Success \<longrightarrow> AccessLevel cl' =
                    (if IsRootUser (Cred cl') then (if m = Normal then SuperUser else m)
                     else if \<not> IsMemberOf (Cred cl') (PortoGroup env) then ReadOnly
                     else m))))))"
proof -
  have pre: "\<not> (case ClientContainer cl of None \<Rightarrow> False | Some cc \<Rightarrow> length h \<le> cc)"
    using cc by (auto split: option.splits)
  show ?thesis
  proof (cases "peercred env")
    case None
    then show ?thesis using pre by (simp add: IdentifyClient_def)
  next
    case (Some cr)
    show ?thesis
    proof (cases "keeps_identity h initial cl cr")
      case True
      then show ?thesis using Some pre by (simp add: IdentifyClient_def)
    next
      case False
      show ?thesis
      proof (cases "FindTaskContainer env containers (fst cr)")
        case (Inl e)
        then show ?thesis using Some False pre by (simp add: IdentifyClient_def Let_def)
      next
        case (Inr x)
        have x: "x < length h" using FindTaskContainer_live[OF reg Inr] .
        obtain m where m:
          "IdentifyClient_level h (Parent (h ! x)) (TContainer.AccessLevel (h ! x)) = Some m"
          "is_min_level h x m"
          using IdentifyClient_level_min[OF wf x] by blast
        have nz: "m \<noteq> AL_None \<Longrightarrow> level_rank ReadOnly \<le> level_rank m" by (cases m) auto
        show ?thesis
          using m Some False Inr x pre nz
          by (auto simp: IdentifyClient_def Let_def)
      qed
    qed
  qed
qed

theorem IdentifyClient_access_level_witness:
  "wf_heap [ct_root, ct_a\<lparr>TContainer.AccessLevel := AL_None, State := Running\<rparr>] \<and>
   list_all (\<lambda>(name, c). c < length [ct_root, ct_a\<lparr>TContainer.AccessLevel := AL_None, State := Running\<rparr>])
     [(''/'', 0), (''a'', 1)] \<and>
   peercred env_a = Some (200, 1000, 1000) \<and>
   \<not> keeps_identity [ct_root, ct_a\<lparr>TContainer.AccessLevel := AL_None, State := Running\<rparr>] True client0
        (200, 1000, 1000) \<and>
   FindTaskContainer env_a [(''/'', 0), (''a'', 1)] 200 = Inr 1 \<and>
   is_min_level [ct_root, ct_a\<lparr>TContainer.AccessLevel := AL_None, State := Running\<rparr>] 1 AL_None \<and>
   IdentifyClient env_a [ct_root, ct_a\<lparr>TContainer.AccessLevel := AL_None, State := Running\<rparr>]
       [(''/'', 0), (''a'', 1)] True client0 =
     Some (Permission, client0\<lparr>TaskCred := \<lparr>Uid = 1000, Gid = 1000, Groups = []\<rparr>, Pid := 200,
                                AccessLevel := AL_None\<rparr>)"
proof -
  let ?h = "[ct_root, ct_a\<lparr>TContainer.AccessLevel := AL_None, State := Running\<rparr>]"
  have wf: "wf_heap ?h" by (simp add: wf_heap_def ct_root_def ct_a_def less_Suc_eq)
  have cc: "\<forall>c. ClientContainer client0 = Some c \<longrightarrow> c < length ?h" by (simp add: client0_def)
  have reg: "list_all (\<lambda>(name, c). c < length ?h) [(''/'', 0), (''a'', 1)]" by simp
  have cr: "peercred env_a = Some (200, 1000, 1000)" by (simp add: env_a_def env0_def)
  have full: "\<not> keeps_identity ?h True client0 (200, 1000, 1000)" by (simp add: keeps_identity_def)
  have found: "FindTaskContainer env_a [(''/'', 0), (''a'', 1)] (fst (200::int, 1000::nat, 1000::nat)) = Inr 1"
    by (simp add: FindTaskContainer_def Find_error_def Find_def StringStartsWith_def env_a_def env0_def
        ROOT_CONTAINER_def Let_def)
  have ev: "IdentifyClient env_a ?h [(''/'', 0), (''a'', 1)] True client0 =
     Some (Permission, client0\<lparr>TaskCred := \<lparr>Uid = 1000, Gid = 1000, Groups = []\<rparr>, Pid := 200,
                                AccessLevel := AL_None\<rparr>)"
    by (simp add: IdentifyClient_def keeps_identity_def FindTaskContainer_def Find_error_def
        Find_def StringStartsWith_def IdentifyClient_level.simps env_a_def env0_def client0_def
        ct_root_def ct_a_def level_min_def ROOT_CONTAINER_def Let_def)
  obtain r cl' where res: "IdentifyClient env_a ?h [(''/'', 0), (''a'', 1)] True client0 = Some (r, cl')"
    and anew: "\<forall>cr. peercred env_a = Some cr \<longrightarrow>
        (keeps_identity ?h True client0 cr \<longrightarrow> r = Success \<and> cl' = client0) \<and>
        (\<not> keeps_identity ?h True client0 cr \<longrightarrow>
           (\<forall>e. FindTaskContainer env_a [(''/'', 0), (''a'', 1)] (fst cr) = Inl e \<longrightarrow>
                  r = e \<and> AccessLevel cl' = AccessLevel client0) \<and>
           (\<forall>x. FindTaskContainer env_a [(''/'', 0), (''a'', 1)] (fst cr) = Inr x \<longrightarrow>
              (\<exists>m. is_min_level ?h x m \<and>
                 (m = AL_None \<longrightarrow> r = Permission \<and> AccessLevel cl' = AL_None) \<and>
                 (r = Success \<longleftrightarrow> m \<noteq> AL_None \<and> (State (?h ! x) = Running \<or> State (?h ! x) = Meta)) \<and>
                 (r \<noteq> Success \<longrightarrow> r = Permission \<and> AccessLevel cl' = m) \<and>
                 (r = Success \<longrightarrow> AccessLevel cl' =
                    (if IsRootUser (Cred cl') then (if m = Normal then SuperUser else m)
                     else if \<not> IsMemberOf (Cred cl') (PortoGroup env_a) then ReadOnly
                     else m)))))"
    using IdentifyClient_access_level[OF wf cc reg, of env_a True] by blast
  from anew cr full found obtain m where m: "is_min_level ?h 1 m"
    "r \<noteq> Success \<longrightarrow> r = Permission \<and> AccessLevel cl' = m"
    by blast
  from res ev have "r = Permission" "AccessLevel cl' = AL_None" by (simp_all add: client0_def)
  with m have "is_min_level ?h 1 AL_None" by auto
  then show ?thesis using wf reg cr full found ev by simp
qed
end
